theory Spec2Isabelle
  imports Complex_Main
begin

section \<open>Paths, JSON values and the file system\<close>

text \<open>
  The discovery service of \<^verbatim>\<open>src/packageJsonDiscovery.ts\<close> works on absolute,
  normalised paths and only ever applies \<^verbatim>\<open>path.join(dir, name)\<close> and
  \<^verbatim>\<open>path.dirname(p)\<close> of Node's path library to them. A path is modelled by the list
  of its components below the file system root, the root being the empty list; the
  root is its own parent, as \<^verbatim>\<open>path.dirname\<close> has it.
\<close>

type_synonym path = "string list"

definition path_join :: "path \<Rightarrow> string \<Rightarrow> path" where
  "path_join p n = p @ [n]"

definition path_dirname :: "path \<Rightarrow> path" where
  "path_dirname p = butlast p"

text \<open>
  The value \<^verbatim>\<open>JSON.parse\<close> returns. Numbers are only ever tested for truthiness by
  the code, an object keeps its members in the order of the text.
\<close>

datatype json =
    JNull
  | JBool bool
  | JNum int
  | JStr string
  | JArr "json list"
  | JObj "(string \<times> json) list"

datatype exn = IOError | SyntaxError | TypeError

text \<open>JavaScript's conversion to a boolean; \<open>None\<close> is \<^verbatim>\<open>undefined\<close>.\<close>

fun truthy :: "json \<Rightarrow> bool" where
  "truthy JNull = False"
| "truthy (JBool b) = b"
| "truthy (JNum n) = (n \<noteq> 0)"
| "truthy (JStr s) = (s \<noteq> [])"
| "truthy (JArr xs) = True"
| "truthy (JObj kvs) = True"

definition truthy_opt :: "json option \<Rightarrow> bool" where
  "truthy_opt v = (case v of None \<Rightarrow> False | Some j \<Rightarrow> truthy j)"

text \<open>
  Reading the property \<open>k\<close> of a parsed value, for the member names the code reads
  (name, version, scripts, workspaces and the script names): on \<^verbatim>\<open>null\<close> it throws a
  TypeError, on an object it is the member (the last one of that name in the text),
  on every other value it is \<^verbatim>\<open>undefined\<close>.
\<close>

fun getProp :: "json \<Rightarrow> string \<Rightarrow> exn + json option" where
  "getProp JNull k = Inl TypeError"
| "getProp (JObj kvs) k = Inr (map_of (rev kvs) k)"
| "getProp j k = Inr None"

text \<open>\<^verbatim>\<open>Object.keys(v).length\<close> of a truthy value.\<close>

fun keyCount :: "json \<Rightarrow> nat" where
  "keyCount (JObj kvs) = length (remdups (map fst kvs))"
| "keyCount (JArr xs) = length xs"
| "keyCount (JStr s) = length s"
| "keyCount j = 0"

text \<open>
  A file is known by what reading and parsing it gives: the read fails, the text is
  not JSON, or the text parses to a value. A directory is known by what listing it
  gives: a failure or its entries.
\<close>

datatype fcontent = Unreadable | Malformed | Manifest json

datatype dirent = Dirent (entry_name: string) (isDirectory: bool)

datatype fnode = File fcontent | Dir "dirent list option"

type_synonym filesystem = "path \<Rightarrow> fnode option"

definition fileExists :: "filesystem \<Rightarrow> path \<Rightarrow> bool" where
  "fileExists fs p = (fs p \<noteq> None)"

text \<open>\<^verbatim>\<open>JSON.parse(await fs.promises.readFile(p, 'utf-8'))\<close>\<close>

definition readJson :: "filesystem \<Rightarrow> path \<Rightarrow> exn + json" where
  "readJson fs p =
     (case fs p of
        Some (File (Manifest j)) \<Rightarrow> Inr j
      | Some (File Malformed) \<Rightarrow> Inl SyntaxError
      | _ \<Rightarrow> Inl IOError)"

text \<open>\<^verbatim>\<open>fs.promises.readdir(p, { withFileTypes: true })\<close>; \<open>None\<close> when it throws.\<close>

definition readdir :: "filesystem \<Rightarrow> path \<Rightarrow> dirent list option" where
  "readdir fs p = (case fs p of Some (Dir (Some es)) \<Rightarrow> Some es | _ \<Rightarrow> None)"

section \<open>The discovery service\<close>

record PackageJsonInfo =
  path :: path
  directory :: path
  name :: "json option"
  version :: "json option"
  scripts :: json
  isWorkspaceRoot :: bool
  isMonorepoRoot :: bool
  workspaces :: "json option"
  distance :: nat
  score :: int

text \<open>
  \<^verbatim>\<open>DiscoveryOptions\<close> as a caller passes it (every field optional) and as the
  service uses it after the defaults have been spread under it.
\<close>

record DiscoveryOptions =
  optMaxDepthUp :: "int option"
  optMaxDepthDown :: "int option"
  optIncludeNodeModules :: "bool option"
  optWorkspaceRootsOnly :: "bool option"
  optCacheResults :: "bool option"

record Options =
  maxDepthUp :: int
  maxDepthDown :: int
  includeNodeModules :: bool
  workspaceRootsOnly :: bool
  cacheResults :: bool

definition DEFAULT_OPTIONS :: Options where
  "DEFAULT_OPTIONS =
     \<lparr>maxDepthUp = 10, maxDepthDown = 5, includeNodeModules = False,
      workspaceRootsOnly = False, cacheResults = True\<rparr>"

definition no_options :: DiscoveryOptions where
  "no_options =
     \<lparr>optMaxDepthUp = None, optMaxDepthDown = None, optIncludeNodeModules = None,
      optWorkspaceRootsOnly = None, optCacheResults = None\<rparr>"

text \<open>\<^verbatim>\<open>{ ...base, ...options }\<close>\<close>

definition spread :: "Options \<Rightarrow> DiscoveryOptions \<Rightarrow> Options" where
  "spread base options =
     \<lparr>maxDepthUp = (case optMaxDepthUp options of Some v \<Rightarrow> v | None \<Rightarrow> maxDepthUp base),
      maxDepthDown = (case optMaxDepthDown options of Some v \<Rightarrow> v | None \<Rightarrow> maxDepthDown base),
      includeNodeModules =
        (case optIncludeNodeModules options of Some v \<Rightarrow> v | None \<Rightarrow> includeNodeModules base),
      workspaceRootsOnly =
        (case optWorkspaceRootsOnly options of Some v \<Rightarrow> v | None \<Rightarrow> workspaceRootsOnly base),
      cacheResults = (case optCacheResults options of Some v \<Rightarrow> v | None \<Rightarrow> cacheResults base)\<rparr>"

definition skipDirs :: "string list" where
  "skipDirs =
     [''.git'', ''.svn'', ''.hg'', ''.vscode'', ''.idea'', ''dist'', ''build'', ''out'',
      ''.next'', ''.nuxt'', ''coverage'', ''.nyc_output'', ''tmp'', ''temp'',
      ''__pycache__'', ''.pytest_cache'']"

definition startsWith :: "string \<Rightarrow> string \<Rightarrow> bool" where
  "startsWith s pre = (take (length pre) s = pre)"

definition shouldSkipDirectory :: "string \<Rightarrow> bool" where
  "shouldSkipDirectory dirName =
     (startsWith dirName ''.'' \<and> \<not> startsWith dirName ''..'' \<or> dirName \<in> set skipDirs)"

text \<open>
  The body of the \<^verbatim>\<open>try\<close> block of \<^verbatim>\<open>parsePackageJson\<close>: \<open>Inl\<close> is what it throws.
  The first argument is the service's list of workspace roots.
\<close>

definition parseBody :: "path list \<Rightarrow> filesystem \<Rightarrow> path \<Rightarrow> nat \<Rightarrow> exn + PackageJsonInfo" where
  "parseBody roots fs packageJsonPath distance' =
     (case readJson fs packageJsonPath of
        Inl e \<Rightarrow> Inl e
      | Inr packageJson \<Rightarrow>
          (case getProp packageJson ''workspaces'' of
             Inl e \<Rightarrow> Inl e
           | Inr ws \<Rightarrow>
               (case (getProp packageJson ''name'', getProp packageJson ''version'',
                      getProp packageJson ''scripts'') of
                  (Inr nm, Inr ver, Inr scr) \<Rightarrow>
                    Inr \<lparr>path = packageJsonPath,
                         directory = path_dirname packageJsonPath,
                         name = nm,
                         version = ver,
                         scripts = (if truthy_opt scr then the scr else JObj []),
                         isWorkspaceRoot = (path_dirname packageJsonPath \<in> set roots),
                         isMonorepoRoot = truthy_opt ws,
                         workspaces = ws,
                         distance = distance',
                         score = 0\<rparr>
                | (Inl e, _, _) \<Rightarrow> Inl e
                | (_, Inl e, _) \<Rightarrow> Inl e
                | (_, _, Inl e) \<Rightarrow> Inl e)))"

text \<open>The \<^verbatim>\<open>catch\<close> clause returns \<^verbatim>\<open>null\<close> whatever was thrown.\<close>

definition parsePackageJson :: "path list \<Rightarrow> filesystem \<Rightarrow> path \<Rightarrow> nat \<Rightarrow> PackageJsonInfo option" where
  "parsePackageJson roots fs packageJsonPath distance' =
     (case parseBody roots fs packageJsonPath distance' of
        Inl e \<Rightarrow> None
      | Inr info \<Rightarrow> Some info)"

text \<open>
  The two passes share the array of results and the set of visited directories; the
  pair of them is the state each pass takes and returns. What both passes do at a
  directory they enter is \<open>visit\<close>: the directory joins the visited set, and if it
  has a \<^verbatim>\<open>package.json\<close> that parses, the entry is pushed with the current depth as
  its distance. \<open>searchEntries\<close> is the loop of \<^verbatim>\<open>searchDownward\<close> over the entries
  of the directory; a listing that fails ends the call, as the empty \<^verbatim>\<open>catch\<close> does.
\<close>

type_synonym search_state = "PackageJsonInfo list \<times> path set"

definition visit :: "path list \<Rightarrow> filesystem \<Rightarrow> path \<Rightarrow> nat \<Rightarrow> search_state \<Rightarrow> search_state" where
  "visit roots fs currentPath depth st =
     (let packageJsonPath = path_join currentPath ''package.json'' in
      (if fileExists fs packageJsonPath
       then (case parsePackageJson roots fs packageJsonPath depth of
               Some info \<Rightarrow> fst st @ [info]
             | None \<Rightarrow> fst st)
       else fst st,
       insert currentPath (snd st)))"

function searchUpward ::
  "path list \<Rightarrow> filesystem \<Rightarrow> path \<Rightarrow> int \<Rightarrow> nat \<Rightarrow> search_state \<Rightarrow> search_state" where
  "searchUpward roots fs currentPath maxDepth depth st =
     (if int depth > maxDepth \<or> currentPath \<in> snd st then st
      else let st' = visit roots fs currentPath depth st;
               parentPath = path_dirname currentPath
           in if parentPath \<noteq> currentPath
              then searchUpward roots fs parentPath maxDepth (depth + 1) st'
              else st')"
  by pat_completeness auto
termination
  by (relation "measure (\<lambda>(roots, fs, currentPath, maxDepth, depth, st). length currentPath)")
     (auto simp: path_dirname_def intro: diff_less elim: contrapos_np)

declare searchUpward.simps [simp del]

function searchDownward ::
    "path list \<Rightarrow> filesystem \<Rightarrow> Options \<Rightarrow> path \<Rightarrow> int \<Rightarrow> nat \<Rightarrow> search_state \<Rightarrow> search_state"
  and searchEntries ::
    "path list \<Rightarrow> filesystem \<Rightarrow> Options \<Rightarrow> path \<Rightarrow> int \<Rightarrow> nat \<Rightarrow> dirent list \<Rightarrow> search_state
       \<Rightarrow> search_state" where
  "searchDownward roots fs options currentPath maxDepth depth st =
     (if int depth > maxDepth \<or> currentPath \<in> snd st then st
      else let st' = visit roots fs currentPath depth st
           in case readdir fs currentPath of
                None \<Rightarrow> st'
              | Some entries \<Rightarrow>
                  searchEntries roots fs options currentPath maxDepth depth entries st')"
| "searchEntries roots fs options currentPath maxDepth depth [] st = st"
| "searchEntries roots fs options currentPath maxDepth depth (entry # rest) st =
     (if \<not> isDirectory entry
      then searchEntries roots fs options currentPath maxDepth depth rest st
      else if \<not> includeNodeModules options \<and> entry_name entry = ''node_modules''
      then searchEntries roots fs options currentPath maxDepth depth rest st
      else if shouldSkipDirectory (entry_name entry)
      then searchEntries roots fs options currentPath maxDepth depth rest st
      else searchEntries roots fs options currentPath maxDepth depth rest
             (searchDownward roots fs options
                (path_join currentPath (entry_name entry)) maxDepth (depth + 1) st))"
  by pat_completeness auto
termination
  by (relation "measures
        [\<lambda>x. case x of
               Inl (roots, fs, options, currentPath, maxDepth, depth, st) \<Rightarrow>
                 2 * nat (maxDepth + 1 - int depth)
             | Inr (roots, fs, options, currentPath, maxDepth, depth, entries, st) \<Rightarrow>
                 (if int depth > maxDepth then 1 else 2 * nat (maxDepth + 1 - int depth) - 1),
         \<lambda>x. case x of
               Inl (roots, fs, options, currentPath, maxDepth, depth, st) \<Rightarrow> 0
             | Inr (roots, fs, options, currentPath, maxDepth, depth, entries, st) \<Rightarrow>
                 length entries]")
     auto

declare searchDownward.simps [simp del]

text \<open>
  \<^verbatim>\<open>calculateScores\<close> assigns every entry of the array its score. The score of one
  entry, given whether the array has an entry at the start path:
\<close>

definition commonScripts :: "string list" where
  "commonScripts = [''start'', ''dev'', ''build'', ''test'', ''lint'']"

definition hasCommonScripts :: "json \<Rightarrow> bool" where
  "hasCommonScripts scr =
     list_ex (\<lambda>script. case getProp scr script of Inr v \<Rightarrow> truthy_opt v | Inl e \<Rightarrow> False)
       commonScripts"

definition scoreOf :: "bool \<Rightarrow> path \<Rightarrow> PackageJsonInfo \<Rightarrow> int" where
  "scoreOf hasPackageJsonAtStartPath startPath info =
     (let score0 = 0 + max 0 (100 - int (distance info) * 10);
          score1 = (if isWorkspaceRoot info then score0 + 50 else score0);
          score2 = (if isMonorepoRoot info then score1 + 30 else score1);
          score3 = (if truthy (scripts info) \<and> keyCount (scripts info) > 0
                    then score2 + 20 else score2);
          score4 = (if truthy (scripts info) \<and> hasCommonScripts (scripts info)
                    then score3 + 15 else score3);
          score5 = (if directory info = startPath then score4 + 25 else score4);
          score6 = (if \<not> hasPackageJsonAtStartPath \<and> distance info = 1
                    then score5 + 40 else score5)
      in score6)"

definition atStartPath :: "path \<Rightarrow> PackageJsonInfo \<Rightarrow> bool" where
  "atStartPath startPath info = (directory info = startPath \<and> distance info = 0)"

definition calculateScores :: "PackageJsonInfo list \<Rightarrow> path \<Rightarrow> PackageJsonInfo list" where
  "calculateScores results startPath =
     (let hasPackageJsonAtStartPath = list_ex (atStartPath startPath) results
      in map (\<lambda>info. info\<lparr>score := scoreOf hasPackageJsonAtStartPath startPath info\<rparr>) results)"

text \<open>
  \<^verbatim>\<open>results.sort((a, b) => b.score - a.score)\<close>: descending by score, and stable, as
  the sort of an array is.
\<close>

definition sortByScore :: "PackageJsonInfo list \<Rightarrow> PackageJsonInfo list" where
  "sortByScore results = sort_key (\<lambda>info. - score info) results"

text \<open>
  What \<^verbatim>\<open>discoverPackageJsonFiles\<close> computes when it does not answer from its cache:
  the upward pass, the downward pass on the same array and visited set, the scores,
  the sort.
\<close>

definition discoverRun :: "path list \<Rightarrow> filesystem \<Rightarrow> path \<Rightarrow> Options \<Rightarrow> PackageJsonInfo list" where
  "discoverRun roots fs startPath opts =
     (let st0 = ([], {});
          st1 = searchUpward roots fs startPath (maxDepthUp opts) 0 st0;
          st2 = searchDownward roots fs opts startPath (maxDepthDown opts) 0 st1
      in sortByScore (calculateScores (fst st2) startPath))"

section \<open>The service and its cache\<close>

text \<open>
  The service keeps its workspace roots and a cache from (start path, resolved options)
  to the array it returned for them. The arrays and the \<^verbatim>\<open>PackageJsonInfo\<close> objects
  in them are shared between the cache and every caller that received them, and some
  operations update them in place, so both live in a store: an array is an address
  into \<open>arrays\<close> and holds addresses into \<open>objects\<close>. Nothing is ever freed.
  The file system is what it is at the moment of each call and is an argument of the
  call.
\<close>

record service =
  workspaceRoots :: "path list"
  cache :: "path \<times> Options \<Rightarrow> nat option"
  arrays :: "nat list list"
  objects :: "PackageJsonInfo list"

definition newService :: "path list \<Rightarrow> service" where
  "newService folders =
     \<lparr>workspaceRoots = folders, cache = (\<lambda>k. None), arrays = [], objects = []\<rparr>"

definition clearCache :: "service \<Rightarrow> service" where
  "clearCache s = s\<lparr>cache := (\<lambda>k. None)\<rparr>"

definition refreshWorkspaceRoots :: "path list \<Rightarrow> service \<Rightarrow> service" where
  "refreshWorkspaceRoots folders s = clearCache (s\<lparr>workspaceRoots := folders\<rparr>)"

text \<open>The entries an array holds in a state, in order.\<close>

definition contents :: "service \<Rightarrow> nat \<Rightarrow> PackageJsonInfo list" where
  "contents s a = map (\<lambda>r. objects s ! r) (arrays s ! a)"

text \<open>A new array of new objects with the given values.\<close>

definition newArray :: "PackageJsonInfo list \<Rightarrow> service \<Rightarrow> nat \<times> service" where
  "newArray infos s =
     (length (arrays s),
      s\<lparr>arrays := arrays s @ [[length (objects s) ..< length (objects s) + length infos]],
        objects := objects s @ infos\<rparr>)"

text \<open>
  \<^verbatim>\<open>discoverPackageJsonFiles\<close>. On a cache hit the cached array itself is returned.
  Otherwise every object of the run is new and nothing else refers to it before the
  run returns, so the run is computed on values (\<open>discoverRun\<close>) and stored at the
  end. The cache key, a string made of the start path and the serialised options in
  the source, is the pair of them.
\<close>

definition discoverPackageJsonFiles ::
  "filesystem \<Rightarrow> path \<Rightarrow> DiscoveryOptions \<Rightarrow> service \<Rightarrow> nat \<times> service" where
  "discoverPackageJsonFiles fs startPath options s =
     (let opts = spread DEFAULT_OPTIONS options;
          cacheKey = (startPath, opts)
      in if cacheResults opts \<and> cache s cacheKey \<noteq> None
         then (the (cache s cacheKey), s)
         else let (results, s1) = newArray (discoverRun (workspaceRoots s) fs startPath opts) s;
                  s2 = (if cacheResults opts
                        then s1\<lparr>cache := (cache s1)(cacheKey \<mapsto> results)\<rparr> else s1)
              in (results, s2))"

text \<open>\<^verbatim>\<open>calculateScores\<close> on an array of the store: the objects are updated in place.\<close>

definition setScore :: "nat \<Rightarrow> int \<Rightarrow> service \<Rightarrow> service" where
  "setScore r v s = s\<lparr>objects := (objects s)[r := (objects s ! r)\<lparr>score := v\<rparr>]\<rparr>"

definition calculateScoresIn :: "nat \<Rightarrow> path \<Rightarrow> service \<Rightarrow> service" where
  "calculateScoresIn results startPath s =
     (let hasPackageJsonAtStartPath = list_ex (atStartPath startPath) (contents s results)
      in fold (\<lambda>r s'. setScore r (scoreOf hasPackageJsonAtStartPath startPath (objects s' ! r)) s')
           (arrays s ! results) s)"

definition sortIn :: "nat \<Rightarrow> service \<Rightarrow> service" where
  "sortIn results s =
     s\<lparr>arrays := (arrays s)[results :=
          sort_key (\<lambda>r. - score (objects s ! r)) (arrays s ! results)]\<rparr>"

definition asOptions :: "Options \<Rightarrow> DiscoveryOptions" where
  "asOptions opts =
     \<lparr>optMaxDepthUp = Some (maxDepthUp opts), optMaxDepthDown = Some (maxDepthDown opts),
      optIncludeNodeModules = Some (includeNodeModules opts),
      optWorkspaceRootsOnly = Some (workspaceRootsOnly opts),
      optCacheResults = Some (cacheResults opts)\<rparr>"

definition getBestPackageJson ::
  "filesystem \<Rightarrow> path \<Rightarrow> DiscoveryOptions \<Rightarrow> service \<Rightarrow> nat option \<times> service" where
  "getBestPackageJson fs startPath options s =
     (let opts = spread DEFAULT_OPTIONS options;
          (results, s1) = discoverPackageJsonFiles fs startPath (asOptions opts) s;
          hasPackageJsonAtStartPath =
            list_ex (\<lambda>info. directory info = startPath) (contents s1 results);
          s5 = (if \<not> hasPackageJsonAtStartPath \<and> maxDepthDown opts > 0
                then let (childResults, s2) =
                           discoverPackageJsonFiles fs startPath
                             (asOptions (opts\<lparr>maxDepthUp := 0,
                                maxDepthDown := min (maxDepthDown opts) 2,
                                cacheResults := False\<rparr>)) s1;
                         s3 = s2\<lparr>arrays := (arrays s2)[results :=
                                arrays s2 ! results @ arrays s2 ! childResults]\<rparr>;
                         s4 = calculateScoresIn results startPath s3
                     in sortIn results s4
                else s1)
      in (case arrays s5 ! results of [] \<Rightarrow> None | r # rs \<Rightarrow> Some r, s5))"

text \<open>\<^verbatim>\<open>arr.findIndex(pred)\<close>\<close>

fun findIndex :: "('a \<Rightarrow> bool) \<Rightarrow> 'a list \<Rightarrow> int" where
  "findIndex pred [] = - 1"
| "findIndex pred (x # xs) =
     (if pred x then 0 else let i = findIndex pred xs in if i = - 1 then - 1 else i + 1)"

text \<open>
  \<^verbatim>\<open>allResults.filter((item, index, arr) =>
       arr.findIndex(other => other.path === item.path) === index)\<close>,
  on the addresses of the objects; \<open>val\<close> reads an object.
\<close>

definition uniqueResults :: "(nat \<Rightarrow> PackageJsonInfo) \<Rightarrow> nat list \<Rightarrow> nat list" where
  "uniqueResults val allResults =
     map fst (filter (\<lambda>(item, index).
                  findIndex (\<lambda>other. path (val other) = path (val item)) allResults = int index)
                (zip allResults [0 ..< length allResults]))"

fun discoverEach :: "filesystem \<Rightarrow> path list \<Rightarrow> nat list \<Rightarrow> service \<Rightarrow> nat list \<times> service" where
  "discoverEach fs [] allResults s = (allResults, s)"
| "discoverEach fs (workspaceRoot # rest) allResults s =
     (let (results, s1) =
            discoverPackageJsonFiles fs workspaceRoot
              (no_options\<lparr>optMaxDepthUp := Some 0, optMaxDepthDown := Some 10\<rparr>) s
      in discoverEach fs rest (allResults @ arrays s1 ! results) s1)"

definition getWorkspacePackageJsonFiles :: "filesystem \<Rightarrow> service \<Rightarrow> nat list \<times> service" where
  "getWorkspacePackageJsonFiles fs s =
     (let (allResults, s1) = discoverEach fs (workspaceRoots s) [] s;
          unique = uniqueResults (\<lambda>r. objects s1 ! r) allResults
      in (sort_key (\<lambda>r. - score (objects s1 ! r)) unique, s1))"

text \<open>
  \<^verbatim>\<open>getWorkspaceRoot\<close> compares the path strings with \<^verbatim>\<open>startsWith\<close>.
\<close>

definition pathString :: "path \<Rightarrow> string" where
  "pathString p = (if p = [] then ''/'' else concat (map (\<lambda>c. CHR ''/'' # c) p))"

definition getWorkspaceRoot :: "service \<Rightarrow> path \<Rightarrow> path option" where
  "getWorkspaceRoot s filePath =
     List.find (\<lambda>r. startsWith (pathString filePath) (pathString r)) (workspaceRoots s)"

section \<open>The context analyser\<close>

datatype ProjectType = Monorepo | SinglePackage | Workspace | Nested

text \<open>
  \<^verbatim>\<open>ProjectContext\<close>. Its array of relevant entries is built by the call and shared with
  nothing, so it is held by value: the addresses of its objects, in order. The
  advisory \<^verbatim>\<open>recommendations\<close> strings, which the analyser computes from further
  queries to the editor and which decide nothing, are left out.
\<close>

record ProjectContext =
  projectType :: ProjectType
  rootPackageJson :: "nat option"
  relevantPackageJsons :: "nat list"
  workspaceRoot :: path
  currentPath :: path

record SmartDetectionOptions =
  optIncludeParentProjects :: "bool option"
  optPrioritizeWorkspaceRoots :: "bool option"
  optDetectMonorepos :: "bool option"
  optAnalyzeProjectStructure :: "bool option"

record SmartOptions =
  includeParentProjects :: bool
  prioritizeWorkspaceRoots :: bool
  detectMonorepos :: bool
  analyzeProjectStructure :: bool

definition no_smart_options :: SmartDetectionOptions where
  "no_smart_options =
     \<lparr>optIncludeParentProjects = None, optPrioritizeWorkspaceRoots = None,
      optDetectMonorepos = None, optAnalyzeProjectStructure = None\<rparr>"

definition smartSpread :: "SmartDetectionOptions \<Rightarrow> SmartOptions" where
  "smartSpread options =
     \<lparr>includeParentProjects =
        (case optIncludeParentProjects options of Some v \<Rightarrow> v | None \<Rightarrow> True),
      prioritizeWorkspaceRoots =
        (case optPrioritizeWorkspaceRoots options of Some v \<Rightarrow> v | None \<Rightarrow> True),
      detectMonorepos = (case optDetectMonorepos options of Some v \<Rightarrow> v | None \<Rightarrow> True),
      analyzeProjectStructure =
        (case optAnalyzeProjectStructure options of Some v \<Rightarrow> v | None \<Rightarrow> True)\<rparr>"

text \<open>
  \<^verbatim>\<open>filterRelevantPackageJsons\<close>: the array is copied, the objects are not; the bonus
  is added to the objects themselves.
\<close>

definition addBonus :: "nat \<Rightarrow> service \<Rightarrow> service" where
  "addBonus pkg s =
     (if isWorkspaceRoot (objects s ! pkg)
      then setScore pkg (score (objects s ! pkg) + 100) s else s)"

definition isRelevant :: "PackageJsonInfo \<Rightarrow> bool" where
  "isRelevant pkg =
     (if isWorkspaceRoot pkg then True
      else if distance pkg \<le> 3 then True
      else if isMonorepoRoot pkg then True
      else if truthy (scripts pkg) \<and> keyCount (scripts pkg) \<ge> 5 then True
      else False)"

definition filterRelevantPackageJsons ::
  "nat \<Rightarrow> path \<Rightarrow> SmartOptions \<Rightarrow> service \<Rightarrow> nat list \<times> service" where
  "filterRelevantPackageJsons allPackageJsons currentPath' options s =
     (let filtered0 = arrays s ! allPackageJsons;
          s1 = (if prioritizeWorkspaceRoots options then fold addBonus filtered0 s else s);
          filtered1 = filter (\<lambda>pkg. isRelevant (objects s1 ! pkg)) filtered0
      in (sort_key (\<lambda>pkg. - score (objects s1 ! pkg)) filtered1, s1))"

definition detectProjectType :: "PackageJsonInfo list \<Rightarrow> path \<Rightarrow> ProjectType" where
  "detectProjectType packageJsons workspaceRoot' =
     (if list_ex isMonorepoRoot packageJsons then Monorepo
      else if length packageJsons > 1
           then (if list_ex isWorkspaceRoot packageJsons then Workspace else Nested)
           else SinglePackage)"

definition findRootPackageJson ::
  "service \<Rightarrow> nat list \<Rightarrow> path \<Rightarrow> ProjectType \<Rightarrow> nat option" where
  "findRootPackageJson s packageJsons workspaceRoot' projectType' =
     (if packageJsons = [] then None
      else case (if projectType' = Monorepo
                 then List.find (\<lambda>pkg. isMonorepoRoot (objects s ! pkg)) packageJsons
                 else None) of
             Some monorepoRoot \<Rightarrow> Some monorepoRoot
           | None \<Rightarrow>
               (case (if projectType' = Workspace
                      then List.find (\<lambda>pkg. isWorkspaceRoot (objects s ! pkg)) packageJsons
                      else None) of
                  Some workspaceRootPkg \<Rightarrow> Some workspaceRootPkg
                | None \<Rightarrow> Some (hd packageJsons)))"

definition analyzeProjectContext ::
  "filesystem \<Rightarrow> path \<Rightarrow> SmartDetectionOptions \<Rightarrow> service \<Rightarrow> ProjectContext \<times> service" where
  "analyzeProjectContext fs currentPath' options s =
     (let opts = smartSpread options;
          (allPackageJsons, s1) =
            discoverPackageJsonFiles fs currentPath'
              (no_options\<lparr>optMaxDepthUp := Some (if includeParentProjects opts then 10 else 0),
                 optMaxDepthDown := Some 5\<rparr>) s;
          workspaceRoot' =
            (case getWorkspaceRoot s1 currentPath' of Some r \<Rightarrow> r | None \<Rightarrow> currentPath');
          (relevant, s2) = filterRelevantPackageJsons allPackageJsons currentPath' opts s1;
          projectType' = detectProjectType (map (\<lambda>r. objects s2 ! r) relevant) workspaceRoot';
          rootPkg = findRootPackageJson s2 relevant workspaceRoot' projectType'
      in (\<lparr>projectType = projectType', rootPackageJson = rootPkg,
           relevantPackageJsons = relevant, workspaceRoot = workspaceRoot',
           currentPath = currentPath'\<rparr>, s2))"

definition getContextualRecommendations ::
  "filesystem \<Rightarrow> path \<Rightarrow> service \<Rightarrow> nat list \<times> service" where
  "getContextualRecommendations fs currentPath' s =
     (let (context, s1) = analyzeProjectContext fs currentPath' no_smart_options s
      in (case projectType context of
            Monorepo \<Rightarrow> take 5 (relevantPackageJsons context)
          | Workspace \<Rightarrow>
              filter (\<lambda>pkg. isWorkspaceRoot (objects s1 ! pkg) \<or> distance (objects s1 ! pkg) \<le> 2)
                (relevantPackageJsons context)
          | _ \<Rightarrow> take 3 (relevantPackageJsons context), s1))"

text \<open>
  The decision of \<^verbatim>\<open>shouldUseSpecificPackageJson\<close> on the relevant entries, read in
  the state the analysis left.
\<close>

definition chooseSpecific :: "service \<Rightarrow> nat list \<Rightarrow> nat option" where
  "chooseSpecific s relevant =
     (if length relevant = 1 then Some (relevant ! 0)
      else if length relevant > 1
              \<and> real_of_int (score (objects s ! (relevant ! 0)))
                  > real_of_int (score (objects s ! (relevant ! 1))) * 1.5
      then Some (relevant ! 0)
      else None)"

definition shouldUseSpecificPackageJson ::
  "filesystem \<Rightarrow> path \<Rightarrow> service \<Rightarrow> nat option \<times> service" where
  "shouldUseSpecificPackageJson fs currentPath' s =
     (let (context, s1) = analyzeProjectContext fs currentPath' no_smart_options s
      in (chooseSpecific s1 (relevantPackageJsons context), s1))"

section \<open>Notions used to state the properties\<close>

text \<open>
  How a directory visited at depth \<open>d\<close> lies to the start path: \<open>d\<close> levels above
  it (the upward pass) or \<open>d\<close> levels below it (the downward pass).
\<close>

definition upR :: "path \<Rightarrow> path \<Rightarrow> nat \<Rightarrow> bool" where
  "upR startPath cur d = (d \<le> length startPath \<and> cur = take (length startPath - d) startPath)"

definition downR :: "path \<Rightarrow> path \<Rightarrow> nat \<Rightarrow> bool" where
  "downR startPath cur d =
     (length cur = length startPath + d \<and> take (length startPath) cur = startPath)"

definition reached :: "path \<Rightarrow> path \<Rightarrow> nat \<Rightarrow> bool" where
  "reached startPath cur d = (upR startPath cur d \<or> downR startPath cur d)"

text \<open>
  The invariant of both passes: the entries have pairwise different paths, and each
  is what parsing the manifest of a visited directory gave, at the depth the
  directory was visited.
\<close>

definition search_inv ::
  "(path \<Rightarrow> nat \<Rightarrow> bool) \<Rightarrow> path list \<Rightarrow> filesystem \<Rightarrow> search_state \<Rightarrow> bool" where
  "search_inv R roots fs st =
     (distinct (map path (fst st)) \<and>
      (\<forall>e \<in> set (fst st). directory e \<in> snd st \<and> R (directory e) (distance e) \<and>
         parsePackageJson roots fs (path_join (directory e) ''package.json'') (distance e)
           = Some e))"

text \<open>The state after both passes of a run.\<close>

definition searched :: "path list \<Rightarrow> filesystem \<Rightarrow> path \<Rightarrow> Options \<Rightarrow> search_state" where
  "searched roots fs startPath opts =
     searchDownward roots fs opts startPath (maxDepthDown opts) 0
       (searchUpward roots fs startPath (maxDepthUp opts) 0 ([], {}))"

text \<open>Whether a parsed value is an object with a member of the given name.\<close>

definition hasKey :: "json \<Rightarrow> string \<Rightarrow> bool" where
  "hasKey j k = (case j of JObj kvs \<Rightarrow> k \<in> set (map fst kvs) | _ \<Rightarrow> False)"

text \<open>
  The scoring formula in the words of the specification: the bonus of 15 is for
  scripts that contain one of the common names, the bonus of 40 for an entry at
  distance 1 when no entry of the result set lies at the start path.
\<close>

definition spec_score :: "PackageJsonInfo list \<Rightarrow> path \<Rightarrow> PackageJsonInfo \<Rightarrow> int" where
  "spec_score results startPath info =
     max 0 (100 - int (distance info) * 10)
     + (if isWorkspaceRoot info then 50 else 0)
     + (if isMonorepoRoot info then 30 else 0)
     + (if keyCount (scripts info) > 0 then 20 else 0)
     + (if list_ex (hasKey (scripts info)) commonScripts then 15 else 0)
     + (if directory info = startPath then 25 else 0)
     + (if \<not> list_ex (\<lambda>e. directory e = startPath) results \<and> distance info = 1
        then 40 else 0)"

text \<open>
  The same formula with the bonus of 15 as the code gives it: for scripts that map
  one of the common names to a truthy value, which for a command string means a
  non-empty one.
\<close>

definition truthy_score :: "PackageJsonInfo list \<Rightarrow> path \<Rightarrow> PackageJsonInfo \<Rightarrow> int" where
  "truthy_score results startPath info =
     max 0 (100 - int (distance info) * 10)
     + (if isWorkspaceRoot info then 50 else 0)
     + (if isMonorepoRoot info then 30 else 0)
     + (if keyCount (scripts info) > 0 then 20 else 0)
     + (if hasCommonScripts (scripts info) then 15 else 0)
     + (if directory info = startPath then 25 else 0)
     + (if \<not> list_ex (\<lambda>e. directory e = startPath) results \<and> distance info = 1
        then 40 else 0)"

text \<open>
  A manifest declares workspaces, in the words of the specification: its
  \<^verbatim>\<open>workspaces\<close> member is an array, or an object with a \<^verbatim>\<open>packages\<close> array.
\<close>

definition declaresWorkspaces :: "json \<Rightarrow> bool" where
  "declaresWorkspaces j =
     (case getProp j ''workspaces'' of
        Inr (Some (JArr globs)) \<Rightarrow> True
      | Inr (Some (JObj kvs)) \<Rightarrow>
          (case map_of (rev kvs) ''packages'' of Some (JArr ps) \<Rightarrow> True | _ \<Rightarrow> False)
      | _ \<Rightarrow> False)"

text \<open>What the entries of runs for one start path have in common.\<close>

definition entry_ok :: "path \<Rightarrow> PackageJsonInfo \<Rightarrow> bool" where
  "entry_ok sp e = (truthy (scripts e) \<and> (directory e = sp \<longrightarrow> distance e = 0))"

text \<open>
  What holds of the array cached for a start path and options, whatever has been
  done to it since the run that made it: pairwise different paths, each entry the
  manifest of its directory, and for a non-negative \<^verbatim>\<open>maxDepthUp\<close> a directory that many
  levels above the start path as the distance says.
\<close>

definition result_ok :: "path \<Rightarrow> Options \<Rightarrow> PackageJsonInfo list \<Rightarrow> bool" where
  "result_ok sp opts xs =
     (distinct (map path xs) \<and>
      (\<forall>e \<in> set xs. path e = path_join (directory e) ''package.json'' \<and> entry_ok sp e \<and>
         0 \<le> score e \<and> (0 \<le> maxDepthUp opts \<longrightarrow> upR sp (directory e) (distance e))))"

text \<open>
  The invariant of the service: cached addresses are arrays of the store, arrays hold
  addresses of objects of the store, no array is cached under two keys, and every
  cached array is as above for its key.
\<close>

definition service_ok :: "service \<Rightarrow> bool" where
  "service_ok s =
     ((\<forall>k a. cache s k = Some a \<longrightarrow> a < length (arrays s)) \<and>
      (\<forall>a < length (arrays s). \<forall>r \<in> set (arrays s ! a). r < length (objects s)) \<and>
      (\<forall>k k' a. cache s k = Some a \<and> cache s k' = Some a \<longrightarrow> k = k') \<and>
      (\<forall>sp opts a. cache s (sp, opts) = Some a \<longrightarrow> result_ok sp opts (contents s a)))"

text \<open>
  Two states that differ in the scores of their objects only, where no score that
  was at least 0 has become negative.
\<close>

definition score_change :: "service \<Rightarrow> service \<Rightarrow> bool" where
  "score_change s s' =
     (workspaceRoots s' = workspaceRoots s \<and> cache s' = cache s \<and> arrays s' = arrays s \<and>
      length (objects s') = length (objects s) \<and>
      (\<forall>r < length (objects s). \<exists>v. objects s' ! r = (objects s ! r)\<lparr>score := v\<rparr> \<and>
          (0 \<le> score (objects s ! r) \<longrightarrow> 0 \<le> v)))"

text \<open>
  The states a service can be in: a new service, and what the operations of the
  service and of the analyser make of a state, on any file system and arguments.
\<close>

inductive reachable :: "service \<Rightarrow> bool" where
  created: "reachable (newService folders)"
| discovered: "reachable s \<Longrightarrow> reachable (snd (discoverPackageJsonFiles fs sp options s))"
| chosen: "reachable s \<Longrightarrow> reachable (snd (getBestPackageJson fs sp options s))"
| analysed: "reachable s \<Longrightarrow> reachable (snd (analyzeProjectContext fs cp smart s))"
| listed: "reachable s \<Longrightarrow> reachable (snd (getWorkspacePackageJsonFiles fs s))"
| cleared: "reachable s \<Longrightarrow> reachable (clearCache s)"
| refreshed: "reachable s \<Longrightarrow> reachable (refreshWorkspaceRoots folders s)"

section \<open>Example file systems\<close>

text \<open>
  \<^verbatim>\<open>/repo/package.json\<close> with the scripts build and test, and
  \<^verbatim>\<open>/repo/pkgs/a/package.json\<close> without scripts.
\<close>

definition fs_repo :: filesystem where
  "fs_repo =
     [[] \<mapsto> Dir (Some [Dirent ''repo'' True]),
      [''repo''] \<mapsto> Dir (Some [Dirent ''package.json'' False, Dirent ''pkgs'' True]),
      [''repo'', ''package.json''] \<mapsto>
        File (Manifest (JObj [(''scripts'',
          JObj [(''build'', JStr ''tsc''), (''test'', JStr ''jest'')])])),
      [''repo'', ''pkgs''] \<mapsto> Dir (Some [Dirent ''a'' True]),
      [''repo'', ''pkgs'', ''a''] \<mapsto> Dir (Some [Dirent ''package.json'' False]),
      [''repo'', ''pkgs'', ''a'', ''package.json''] \<mapsto> File (Manifest (JObj []))]"

text \<open>A manifest whose build script is the empty command.\<close>

definition fs_blank_build :: filesystem where
  "fs_blank_build =
     [[''repo''] \<mapsto> Dir (Some [Dirent ''package.json'' False]),
      [''repo'', ''package.json''] \<mapsto>
        File (Manifest (JObj [(''scripts'', JObj [(''build'', JStr [])])]))]"

text \<open>
  A manifest whose \<^verbatim>\<open>workspaces\<close> member is an object without \<^verbatim>\<open>packages\<close>, and one
  whose \<^verbatim>\<open>workspaces\<close> member is \<^verbatim>\<open>false\<close>.
\<close>

definition fs_nohoist :: filesystem where
  "fs_nohoist =
     [[''repo'', ''package.json''] \<mapsto>
        File (Manifest (JObj [(''workspaces'',
          JObj [(''nohoist'', JArr [JStr ''**/react-native''])])]))]"

definition fs_ws_false :: filesystem where
  "fs_ws_false =
     [[''repo'', ''package.json''] \<mapsto>
        File (Manifest (JObj [(''workspaces'', JBool False)]))]"

text \<open>
  Seen from \<^verbatim>\<open>/a/b/c/d/e/f/g\<close>: a manifest with workspaces three levels up and one
  with five scripts at the root, seven levels up.
\<close>

definition fs_far :: filesystem where
  "fs_far =
     [[''package.json''] \<mapsto>
        File (Manifest (JObj [(''scripts'',
          JObj [(''a'', JStr ''1''), (''b'', JStr ''1''), (''c'', JStr ''1''),
                (''d'', JStr ''1''), (''e'', JStr ''1'')])])),
      [''a'', ''b'', ''c'', ''d'', ''package.json''] \<mapsto>
        File (Manifest (JObj [(''workspaces'', JArr [JStr ''packages/*''])]))]"

text \<open>
  Seen from \<^verbatim>\<open>/a/b/c\<close>: a manifest with workspaces at the root, three levels up, and
  a plain one two levels up.
\<close>

definition fs_near :: filesystem where
  "fs_near =
     [[''package.json''] \<mapsto>
        File (Manifest (JObj [(''workspaces'', JArr [JStr ''packages/*''])])),
      [''a'', ''package.json''] \<mapsto> File (Manifest (JObj []))]"

text \<open>A manifest that is not JSON, below a good one.\<close>

definition fs_broken :: filesystem where
  "fs_broken =
     [[''package.json''] \<mapsto> File (Manifest (JObj [])),
      [''repo'', ''package.json''] \<mapsto> File Malformed]"

text \<open>
  Seen from \<^verbatim>\<open>/repo/app\<close>: a manifest with a build script there, and a manifest
  without scripts one level up, in \<^verbatim>\<open>/repo\<close>.
\<close>

definition fs_app :: filesystem where
  "fs_app =
     [[''repo'', ''package.json''] \<mapsto> File (Manifest (JObj [])),
      [''repo'', ''app'', ''package.json''] \<mapsto>
        File (Manifest (JObj [(''scripts'', JObj [(''build'', JStr ''tsc'')])]))]"

section \<open>Facts about the two passes\<close>

lemma dirname_join [simp]: "path_dirname (path_join p n) = p"
  by (simp add: path_dirname_def path_join_def)

lemma join_inject [simp]: "(path_join p n = path_join q n) = (p = q)"
  by (simp add: path_join_def)

lemma parse_Some:
  assumes "parsePackageJson roots fs p d = Some e"
  shows "path e = p" "directory e = path_dirname p" "distance e = d" "score e = 0"
    "isWorkspaceRoot e = (path_dirname p \<in> set roots)"
    "isMonorepoRoot e = truthy_opt (workspaces e)"
    "truthy (scripts e)"
    "\<exists>j. readJson fs p = Inr j \<and> getProp j ''workspaces'' = Inr (workspaces e)"
  using assms
  by (auto simp: parsePackageJson_def parseBody_def truthy_opt_def
      split: sum.splits option.splits if_splits)

lemma visit_snd [simp]: "snd (visit roots fs cur d st) = insert cur (snd st)"
  by (simp add: visit_def Let_def)

lemma visit_fst:
  "fst (visit roots fs cur d st) = fst st \<or>
   (\<exists>e. fst (visit roots fs cur d st) = fst st @ [e] \<and>
        parsePackageJson roots fs (path_join cur ''package.json'') d = Some e)"
  by (auto simp: visit_def Let_def split: option.splits)

lemma searchUpward_stop:
  "int d > maxDepth \<or> cur \<in> snd st \<Longrightarrow> searchUpward roots fs cur maxDepth d st = st"
  by (subst searchUpward.simps) simp

lemma searchUpward_step:
  "\<not> (int d > maxDepth \<or> cur \<in> snd st) \<Longrightarrow> path_dirname cur \<noteq> cur \<Longrightarrow>
   searchUpward roots fs cur maxDepth d st =
     searchUpward roots fs (path_dirname cur) maxDepth (d + 1) (visit roots fs cur d st)"
  by (subst searchUpward.simps) (simp add: Let_def)

lemma searchUpward_root:
  "\<not> (int d > maxDepth \<or> cur \<in> snd st) \<Longrightarrow> path_dirname cur = cur \<Longrightarrow>
   searchUpward roots fs cur maxDepth d st = visit roots fs cur d st"
  by (subst searchUpward.simps) (simp add: Let_def)

lemma searchDownward_stop:
  "int d > maxDepth \<or> cur \<in> snd st \<Longrightarrow> searchDownward roots fs opts cur maxDepth d st = st"
  by (subst searchDownward.simps) simp

lemma searchDownward_leaf:
  "\<not> (int d > maxDepth \<or> cur \<in> snd st) \<Longrightarrow> readdir fs cur = None \<Longrightarrow>
   searchDownward roots fs opts cur maxDepth d st = visit roots fs cur d st"
  by (subst searchDownward.simps) (simp add: Let_def)

lemma searchDownward_step:
  "\<not> (int d > maxDepth \<or> cur \<in> snd st) \<Longrightarrow> readdir fs cur = Some es \<Longrightarrow>
   searchDownward roots fs opts cur maxDepth d st =
     searchEntries roots fs opts cur maxDepth d es (visit roots fs cur d st)"
  by (subst searchDownward.simps) (simp add: Let_def)

lemma searchUpward_inv:
  assumes "\<And>cur d st. P st \<Longrightarrow> R cur d \<Longrightarrow> cur \<notin> snd st \<Longrightarrow> int d \<le> maxDepth \<Longrightarrow>
             P (visit roots fs cur d st)"
    and "\<And>cur d. R cur d \<Longrightarrow> path_dirname cur \<noteq> cur \<Longrightarrow> R (path_dirname cur) (d + 1)"
    and "R cur d" and "P st"
  shows "P (searchUpward roots fs cur maxDepth d st)"
  using assms
proof (induction roots fs cur maxDepth d st rule: searchUpward.induct)
  case (1 roots fs currentPath maxDepth depth st)
  note step = "1.prems"(1) and up = "1.prems"(2) and R = "1.prems"(3) and P = "1.prems"(4)
  show ?case
  proof (cases "int depth > maxDepth \<or> currentPath \<in> snd st")
    case True
    then show ?thesis using P by (simp only: searchUpward_stop)
  next
    case False
    let ?st' = "visit roots fs currentPath depth st"
    have P': "P ?st'" using step [OF P R] False by simp
    show ?thesis
    proof (cases "path_dirname currentPath \<noteq> currentPath")
      case True
      have "P (searchUpward roots fs (path_dirname currentPath) maxDepth (depth + 1) ?st')"
        by (rule "1.IH" [OF False refl refl True step up up [OF R True] P'])
      then show ?thesis by (simp only: searchUpward_step [OF False True])
    next
      case F2: False
      then show ?thesis using P' searchUpward_root [OF False] by simp
    qed
  qed
qed

lemma searchDownward_inv:
  assumes "\<And>cur d st. P st \<Longrightarrow> R cur d \<Longrightarrow> cur \<notin> snd st \<Longrightarrow> P (visit roots fs cur d st)"
    and "\<And>cur d n. R cur d \<Longrightarrow> R (path_join cur n) (d + 1)"
    and "R cur d" and "P st"
  shows "P (searchDownward roots fs opts cur maxDepth d st)"
    and "P (searchEntries roots fs opts cur maxDepth d es st)"
  using assms
proof (induction roots fs opts cur maxDepth d st and roots fs opts cur maxDepth d es st
    rule: searchDownward_searchEntries.induct)
  case (1 roots fs options currentPath maxDepth depth st)
  note step = "1.prems"(1) and down = "1.prems"(2) and R = "1.prems"(3) and P = "1.prems"(4)
  show ?case
  proof (cases "int depth > maxDepth \<or> currentPath \<in> snd st")
    case True
    then show ?thesis using P by (simp only: searchDownward_stop)
  next
    case False
    let ?st' = "visit roots fs currentPath depth st"
    have P': "P ?st'" using step [OF P R] False by simp
    show ?thesis
    proof (cases "readdir fs currentPath")
      case None
      then show ?thesis using P' by (simp only: searchDownward_leaf [OF False None])
    next
      case (Some es)
      have "P (searchEntries roots fs options currentPath maxDepth depth es ?st')"
        by (rule "1.IH" [OF False refl Some step down R P'])
      then show ?thesis by (simp only: searchDownward_step [OF False Some])
    qed
  qed
next
  case (2 roots fs options currentPath maxDepth depth st)
  then show ?case by simp
next
  case (3 roots fs options currentPath maxDepth depth entry rest st)
  note step = "3.prems"(1) and down = "3.prems"(2) and R = "3.prems"(3) and P = "3.prems"(4)
  show ?case
  proof (cases "\<not> isDirectory entry")
    case True
    then show ?thesis using "3.IH"(1) [OF True step down R P] by simp
  next
    case d: False
    show ?thesis
    proof (cases "\<not> includeNodeModules options \<and> entry_name entry = ''node_modules''")
      case True
      then show ?thesis using "3.IH"(2) [OF d True step down R P] d by simp
    next
      case nm: False
      show ?thesis
      proof (cases "shouldSkipDirectory (entry_name entry)")
        case True
        then show ?thesis using "3.IH"(3) [OF d nm True step down R P] d nm by simp
      next
        case sk: False
        have P2: "P (searchDownward roots fs options (path_join currentPath (entry_name entry))
                       maxDepth (depth + 1) st)"
          by (rule "3.IH"(4) [OF d nm sk step down down [OF R] P])
        show ?thesis using "3.IH"(5) [OF d nm sk step down R P2] d nm sk by auto
      qed
    qed
  qed
qed

lemma discoverRun_searched:
  "discoverRun roots fs sp opts = sortByScore (calculateScores (fst (searched roots fs sp opts)) sp)"
  by (simp add: discoverRun_def searched_def Let_def)

lemma visit_inv:
  assumes "search_inv R roots fs st" "R cur d" "cur \<notin> snd st"
  shows "search_inv R roots fs (visit roots fs cur d st)"
proof -
  from visit_fst [of roots fs cur d st] show ?thesis
  proof
    assume "fst (visit roots fs cur d st) = fst st"
    then show ?thesis using assms by (auto simp: search_inv_def)
  next
    assume "\<exists>e. fst (visit roots fs cur d st) = fst st @ [e] \<and>
        parsePackageJson roots fs (path_join cur ''package.json'') d = Some e"
    then obtain e where e: "fst (visit roots fs cur d st) = fst st @ [e]"
      and p: "parsePackageJson roots fs (path_join cur ''package.json'') d = Some e" by blast
    have pe: "path e = path_join cur ''package.json''" "directory e = cur" "distance e = d"
      using parse_Some(1-3) [OF p] by simp_all
    have new: "path e \<notin> set (map path (fst st))"
    proof
      assume "path e \<in> set (map path (fst st))"
      then obtain e' where e': "e' \<in> set (fst st)" "path e' = path e" by auto
      from e'(1) assms(1) have d': "directory e' \<in> snd st"
        and p': "parsePackageJson roots fs (path_join (directory e') ''package.json'') (distance e') = Some e'"
        by (auto simp: search_inv_def)
      from parse_Some(1) [OF p'] e'(2) pe(1) have "directory e' = cur" by simp
      with d' assms(3) show False by simp
    qed
    show ?thesis
      unfolding search_inv_def e
      using assms(1,2) new pe p by (auto simp: search_inv_def)
  qed
qed

lemma upR_start: "upR sp sp 0"
  by (simp add: upR_def)

lemma upR_up:
  assumes "upR sp cur d" "path_dirname cur \<noteq> cur"
  shows "upR sp (path_dirname cur) (d + 1)"
proof -
  from assms have cur: "cur = take (length sp - d) sp" and d: "d \<le> length sp"
    by (simp_all add: upR_def)
  from assms(2) have "cur \<noteq> []" by (auto simp: path_dirname_def)
  with cur d have lt: "d < length sp" by (cases "d = length sp") auto
  have "butlast (take (length sp - d) sp) = take (length sp - d - 1) sp"
    using lt by (simp add: butlast_take)
  then show ?thesis using cur lt by (simp add: upR_def path_dirname_def)
qed

lemma downR_start: "downR sp sp 0"
  by (simp add: downR_def)

lemma downR_down: "downR sp cur d \<Longrightarrow> downR sp (path_join cur n) (d + 1)"
  by (auto simp: downR_def path_join_def)

lemma search_inv_mono:
  "search_inv R roots fs st \<Longrightarrow> (\<And>c d. R c d \<Longrightarrow> R' c d) \<Longrightarrow> search_inv R' roots fs st"
  by (auto simp: search_inv_def)

lemma search_inv_init: "search_inv R roots fs ([], {})"
  by (simp add: search_inv_def)

lemma upward_inv:
  "search_inv (\<lambda>c d. upR sp c d \<and> int d \<le> maxDepth) roots fs
     (searchUpward roots fs sp maxDepth 0 ([], {}))"
proof (rule searchUpward_inv [where R = "upR sp"
      and P = "search_inv (\<lambda>c d. upR sp c d \<and> int d \<le> maxDepth) roots fs"])
  fix cur d st
  assume "search_inv (\<lambda>c d. upR sp c d \<and> int d \<le> maxDepth) roots fs st"
    "upR sp cur d" "cur \<notin> snd st" "int d \<le> maxDepth"
  then show "search_inv (\<lambda>c d. upR sp c d \<and> int d \<le> maxDepth) roots fs
               (visit roots fs cur d st)"
    by (intro visit_inv) simp_all
next
  fix cur d
  assume "upR sp cur d" "path_dirname cur \<noteq> cur"
  then show "upR sp (path_dirname cur) (d + 1)" by (rule upR_up)
qed (rule upR_start, rule search_inv_init)

lemma searched_inv: "search_inv (reached sp) roots fs (searched roots fs sp opts)"
  unfolding searched_def
proof (rule searchDownward_inv(1) [where R = "downR sp" and P = "search_inv (reached sp) roots fs"])
  fix cur d st
  assume "search_inv (reached sp) roots fs st" "downR sp cur d" "cur \<notin> snd st"
  then show "search_inv (reached sp) roots fs (visit roots fs cur d st)"
    by (intro visit_inv) (auto simp: reached_def)
next
  show "search_inv (reached sp) roots fs (searchUpward roots fs sp (maxDepthUp opts) 0 ([], {}))"
    by (rule search_inv_mono [OF upward_inv]) (simp add: reached_def)
next
  fix cur d n
  assume "downR sp cur d"
  then show "downR sp (path_join cur n) (d + 1)" by (rule downR_down)
qed (rule downR_start)

lemma searchUpward_visited:
  "x \<in> snd st \<Longrightarrow> x \<in> snd (searchUpward roots fs cur maxDepth d st)"
  by (rule searchUpward_inv [where R = "\<lambda>c d. True" and P = "\<lambda>st. x \<in> snd st"]) auto

lemma upward_marks_start:
  assumes "0 \<le> maxDepth"
  shows "sp \<in> snd (searchUpward roots fs sp maxDepth 0 ([], {}))"
proof -
  have c: "\<not> (int 0 > maxDepth \<or> sp \<in> snd ([]::PackageJsonInfo list, {}::path set))"
    using assms by simp
  show ?thesis
  proof (cases "path_dirname sp = sp")
    case True
    then show ?thesis using searchUpward_root [OF c True] by simp
  next
    case False
    show ?thesis unfolding searchUpward_step [OF c False]
      by (rule searchUpward_visited) simp
  qed
qed

lemma searched_upward:
  "0 \<le> maxDepthUp opts \<Longrightarrow>
   searched roots fs sp opts = searchUpward roots fs sp (maxDepthUp opts) 0 ([], {})"
  unfolding searched_def by (rule searchDownward_stop) (simp add: upward_marks_start)

lemma dirname_pow: "(path_dirname ^^ k) sp = take (length sp - k) sp"
proof (induction k)
  case 0
  then show ?case by simp
next
  case (Suc k)
  have "butlast (take (length sp - k) sp) = take (length sp - Suc k) sp"
    by (simp add: butlast_take)
  then show ?case using Suc by (simp add: path_dirname_def)
qed

lemma set_discoverRun:
  "set (discoverRun roots fs sp opts) =
     (\<lambda>e. e\<lparr>score := scoreOf (list_ex (atStartPath sp) (fst (searched roots fs sp opts))) sp e\<rparr>)
       ` set (fst (searched roots fs sp opts))"
  by (simp add: discoverRun_searched sortByScore_def calculateScores_def Let_def)

lemma searched_entry:
  assumes "e \<in> set (fst (searched roots fs sp opts))"
  shows "parsePackageJson roots fs (path e) (distance e) = Some e"
    and "path e = path_join (directory e) ''package.json''"
    and "reached sp (directory e) (distance e)"
proof -
  from searched_inv [of sp roots fs opts] assms
  have p: "parsePackageJson roots fs (path_join (directory e) ''package.json'') (distance e) = Some e"
    and r: "reached sp (directory e) (distance e)"
    by (auto simp: search_inv_def)
  from parse_Some(1) [OF p] show "path e = path_join (directory e) ''package.json''" .
  with p show "parsePackageJson roots fs (path e) (distance e) = Some e" by simp
  from r show "reached sp (directory e) (distance e)" .
qed

text \<open>
  When the service does not answer from its cache, the array it returns holds the
  entries of the run.
\<close>

lemma discover_miss:
  assumes "discoverPackageJsonFiles fs sp options s = (a, s')"
    and "cacheResults (spread DEFAULT_OPTIONS options) \<longrightarrow>
           cache s (sp, spread DEFAULT_OPTIONS options) = None"
  shows "contents s' a = discoverRun (workspaceRoots s) fs sp (spread DEFAULT_OPTIONS options)"
proof -
  let ?run = "discoverRun (workspaceRoots s) fs sp (spread DEFAULT_OPTIONS options)"
  have a: "a = length (arrays s)"
    and arr: "arrays s' = arrays s @ [[length (objects s) ..< length (objects s) + length ?run]]"
    and obj: "objects s' = objects s @ ?run"
    using assms by (auto simp: discoverPackageJsonFiles_def newArray_def Let_def split: if_splits)
  have "map (\<lambda>r. (objects s @ ?run) ! r) [length (objects s) ..< length (objects s) + length ?run] = ?run"
    by (rule nth_equalityI) (simp_all add: nth_append)
  then show ?thesis by (simp add: contents_def a arr obj)
qed

lemma search_cong:
  assumes "\<And>cur d st. visit roots fs cur d st = visit roots fs' cur d st"
    and "\<And>cur. readdir fs cur = readdir fs' cur"
  shows "searchUpward roots fs cur maxDepth d st = searchUpward roots fs' cur maxDepth d st"
  using assms
proof (induction roots fs cur maxDepth d st rule: searchUpward.induct)
  case (1 roots fs currentPath maxDepth depth st)
  note vis = "1.prems"(1) and rd = "1.prems"(2)
  show ?case
  proof (cases "int depth > maxDepth \<or> currentPath \<in> snd st")
    case True
    then show ?thesis by (simp only: searchUpward_stop)
  next
    case False
    show ?thesis
    proof (cases "path_dirname currentPath \<noteq> currentPath")
      case True
      from "1.IH" [OF False refl refl True vis rd]
      show ?thesis by (simp only: searchUpward_step [OF False True] vis)
    next
      case F2: False
      then have "path_dirname currentPath = currentPath" by simp
      then show ?thesis by (simp only: searchUpward_root [OF False] vis)
    qed
  qed
qed

lemma search_down_cong:
  assumes "\<And>cur d st. visit roots fs cur d st = visit roots fs' cur d st"
    and "\<And>cur. readdir fs cur = readdir fs' cur"
  shows "searchDownward roots fs opts cur maxDepth d st = searchDownward roots fs' opts cur maxDepth d st"
    and "searchEntries roots fs opts cur maxDepth d es st = searchEntries roots fs' opts cur maxDepth d es st"
  using assms
proof (induction roots fs opts cur maxDepth d st and roots fs opts cur maxDepth d es st
    rule: searchDownward_searchEntries.induct)
  case (1 roots fs options currentPath maxDepth depth st)
  note vis = "1.prems"(1) and rd = "1.prems"(2)
  show ?case
  proof (cases "int depth > maxDepth \<or> currentPath \<in> snd st")
    case True
    then show ?thesis by (simp only: searchDownward_stop)
  next
    case False
    show ?thesis
    proof (cases "readdir fs currentPath")
      case None
      then have "readdir fs' currentPath = None" by (simp add: rd [symmetric])
      with None show ?thesis by (simp only: searchDownward_leaf [OF False] vis)
    next
      case (Some es)
      then have s': "readdir fs' currentPath = Some es" by (simp add: rd [symmetric])
      from "1.IH" [OF False refl Some vis rd]
      show ?thesis by (simp only: searchDownward_step [OF False Some] searchDownward_step [OF False s'] vis)
    qed
  qed
next
  case (2 roots fs options currentPath maxDepth depth st)
  show ?case by simp
next
  case (3 roots fs options currentPath maxDepth depth entry rest st)
  note vis = "3.prems"(1) and rd = "3.prems"(2)
  show ?case
  proof (cases "\<not> isDirectory entry")
    case True
    then show ?thesis using "3.IH"(1) [OF True vis rd] by simp
  next
    case d: False
    show ?thesis
    proof (cases "\<not> includeNodeModules options \<and> entry_name entry = ''node_modules''")
      case True
      then show ?thesis using "3.IH"(2) [OF d True vis rd] d by simp
    next
      case nm: False
      show ?thesis
      proof (cases "shouldSkipDirectory (entry_name entry)")
        case True
        then show ?thesis using "3.IH"(3) [OF d nm True vis rd] d nm by simp
      next
        case sk: False
        have e1: "searchDownward roots fs options (path_join currentPath (entry_name entry)) maxDepth (depth + 1) st
            = searchDownward roots fs' options (path_join currentPath (entry_name entry)) maxDepth (depth + 1) st"
          by (rule "3.IH"(4) [OF d nm sk vis rd])
        show ?thesis using "3.IH"(5) [OF d nm sk vis rd] e1 d nm sk by auto
      qed
    qed
  qed
qed

lemma visit_without_bad_file:
  assumes "fs p = Some (File Unreadable) \<or> fs p = Some (File Malformed)
           \<or> fs p = Some (File (Manifest JNull))"
  shows "visit roots fs cur d st = visit roots (fs(p := None)) cur d st"
proof (cases "path_join cur ''package.json'' = p")
  case True
  have "parsePackageJson roots fs p d = None"
    using assms by (auto simp: parsePackageJson_def parseBody_def readJson_def)
  then show ?thesis using True assms by (auto simp: visit_def fileExists_def Let_def)
next
  case False
  then have "parsePackageJson roots (fs(p := None)) (path_join cur ''package.json'') d
      = parsePackageJson roots fs (path_join cur ''package.json'') d"
    by (simp add: parsePackageJson_def parseBody_def readJson_def)
  then show ?thesis using False by (simp add: visit_def fileExists_def Let_def)
qed

lemma readdir_without_bad_file:
  assumes "fs p = Some (File c)"
  shows "readdir fs cur = readdir (fs(p := None)) cur"
  using assms by (simp add: readdir_def)

lemma run_without_bad_file:
  assumes "fs p = Some (File Unreadable) \<or> fs p = Some (File Malformed)
           \<or> fs p = Some (File (Manifest JNull))"
  shows "discoverRun roots fs sp opts = discoverRun roots (fs(p := None)) sp opts"
proof -
  from assms obtain c where c: "fs p = Some (File c)" by blast
  have vis: "visit roots fs cur d st = visit roots (fs(p := None)) cur d st" for cur d st
    using assms by (rule visit_without_bad_file)
  have rd: "readdir fs cur = readdir (fs(p := None)) cur" for cur
    using c by (rule readdir_without_bad_file)
  have u: "searchUpward roots fs cur m d st = searchUpward roots (fs(p := None)) cur m d st" for cur m d st
    by (rule search_cong) (rule vis, rule rd)
  have w: "searchDownward roots fs opts cur m d st = searchDownward roots (fs(p := None)) opts cur m d st"
    for cur m d st
    by (rule search_down_cong(1)) (rule vis, rule rd)
  show ?thesis by (simp add: discoverRun_def u w)
qed

section \<open>Facts about scores, sorting and de-duplication\<close>

lemma findIndex_ge: "- 1 \<le> findIndex P xs"
  by (induction xs) (auto simp: Let_def)

lemma findIndex_props:
  "findIndex P xs = int i \<Longrightarrow> i < length xs \<and> P (xs ! i) \<and> (\<forall>j<i. \<not> P (xs ! j))"
proof (induction xs arbitrary: i)
  case Nil
  then show ?case by simp
next
  case (Cons x xs)
  show ?case
  proof (cases "P x")
    case True
    with Cons.prems show ?thesis by simp
  next
    case False
    with Cons.prems have ne: "findIndex P xs \<noteq> - 1" and eq: "findIndex P xs + 1 = int i"
      by (auto simp: Let_def split: if_splits)
    from findIndex_ge [of P xs] ne eq obtain k where k: "i = Suc k" "findIndex P xs = int k"
      by (cases i) auto
    from Cons.IH [OF k(2)] False show ?thesis
      by (auto simp: k(1) nth_Cons split: nat.splits)
  qed
qed

lemma zip_upt: "zip xs [0 ..< length xs] = map (\<lambda>i. (xs ! i, i)) [0 ..< length xs]"
  by (rule nth_equalityI) simp_all

lemma uniqueResults_distinct: "distinct (map (\<lambda>r. path (val r)) (uniqueResults val xs))"
proof -
  let ?keep = "\<lambda>i. findIndex (\<lambda>other. path (val other) = path (val (xs ! i))) xs = int i"
  have u: "uniqueResults val xs = map (\<lambda>i. xs ! i) (filter ?keep [0 ..< length xs])"
    by (simp add: uniqueResults_def zip_upt filter_map comp_def)
  have inj: "inj_on (\<lambda>i. path (val (xs ! i))) (set (filter ?keep [0 ..< length xs]))"
  proof (rule inj_onI)
    fix i j
    assume i: "i \<in> set (filter ?keep [0 ..< length xs])"
      and j: "j \<in> set (filter ?keep [0 ..< length xs])"
      and eq: "path (val (xs ! i)) = path (val (xs ! j))"
    from i have ki: "?keep i" by simp
    from j have kj: "?keep j" by simp
    from findIndex_props [OF ki] have mi: "\<forall>k<i. path (val (xs ! k)) \<noteq> path (val (xs ! i))" by simp
    from findIndex_props [OF kj] have mj: "\<forall>k<j. path (val (xs ! k)) \<noteq> path (val (xs ! j))" by simp
    show "i = j"
    proof (rule ccontr)
      assume "i \<noteq> j"
      then consider "i < j" | "j < i" by arith
      then show False
      proof cases
        case 1
        with mj eq show False by auto
      next
        case 2
        with mi eq show False by auto
      qed
    qed
  qed
  have "distinct (map (\<lambda>i. path (val (xs ! i))) (filter ?keep [0 ..< length xs]))"
    using inj by (simp only: distinct_map distinct_filter distinct_upt simp_thms)
  then show ?thesis unfolding u by (simp only: map_map comp_def)
qed

lemma distinct_map_sort_key:
  "distinct (map f (sort_key g xs)) = distinct (map f xs)"
  by (simp add: distinct_map)

lemma searched_distinct: "distinct (map path (fst (searched roots fs sp opts)))"
  using searched_inv [of sp roots fs opts] by (simp add: search_inv_def)

lemma discoverRun_distinct: "distinct (map path (discoverRun roots fs sp opts))"
proof -
  have "map path (calculateScores xs sp) = map path xs" for xs
    by (simp add: calculateScores_def Let_def comp_def)
  then show ?thesis
    by (simp add: discoverRun_searched sortByScore_def distinct_map_sort_key searched_distinct)
qed

lemma scoreOf_nonneg: "0 \<le> scoreOf h sp e"
  by (simp add: scoreOf_def Let_def)

lemma hasKey_getProp: "getProp j k = Inr (Some w) \<Longrightarrow> hasKey j k"
  by (cases j) (auto simp: hasKey_def image_iff dest!: map_of_SomeD intro: bexI [where x = "(k, w)"])

lemma declares_truthy:
  "declaresWorkspaces j \<Longrightarrow> \<exists>w. getProp j ''workspaces'' = Inr (Some w) \<and> truthy w"
  by (auto simp: declaresWorkspaces_def split: sum.splits option.splits json.splits)

lemma reached_start: "reached sp c d \<Longrightarrow> (c = sp \<longleftrightarrow> d = 0)"
  by (auto simp: reached_def upR_def downR_def dest: arg_cong [where f = length])

lemma scoreOf_score_update [simp]: "scoreOf h sp (e\<lparr>score := v\<rparr>) = scoreOf h sp e"
  by (simp add: scoreOf_def)

lemma truthy_score_score_update [simp]: "truthy_score xs sp (e\<lparr>score := v\<rparr>) = truthy_score xs sp e"
  by (simp add: truthy_score_def)

lemma scoreOf_formula:
  assumes "truthy (scripts e)"
    and "h = list_ex (\<lambda>e. directory e = sp) xs"
  shows "scoreOf h sp e = truthy_score xs sp e"
  using assms by (simp add: scoreOf_def truthy_score_def Let_def)

lemma entry_ok_score [simp]: "entry_ok sp (e\<lparr>score := v\<rparr>) = entry_ok sp e"
  by (simp add: entry_ok_def)

lemma atStartPath_ok: "\<forall>e \<in> set xs. entry_ok sp e \<Longrightarrow>
    list_ex (atStartPath sp) xs = list_ex (\<lambda>e. directory e = sp) xs"
  by (auto simp: list_ex_iff atStartPath_def entry_ok_def)

lemma list_ex_directory_map:
  "list_ex (\<lambda>e. directory e = sp) (map (\<lambda>e. e\<lparr>score := f e\<rparr>) xs) = list_ex (\<lambda>e. directory e = sp) xs"
  by (simp add: list_ex_iff)

lemma calculateScores_formula:
  assumes "\<forall>e \<in> set xs. entry_ok sp e"
  shows "\<forall>e \<in> set (calculateScores xs sp). score e = truthy_score (calculateScores xs sp) sp e"
proof -
  let ?h = "list_ex (atStartPath sp) xs"
  have h: "?h = list_ex (\<lambda>e. directory e = sp) (calculateScores xs sp)"
    by (simp add: atStartPath_ok [OF assms] calculateScores_def Let_def list_ex_directory_map)
  show ?thesis
  proof
    fix e
    assume "e \<in> set (calculateScores xs sp)"
    then obtain e0 where e0: "e0 \<in> set xs" and e: "e = e0\<lparr>score := scoreOf ?h sp e0\<rparr>"
      by (auto simp: calculateScores_def Let_def)
    from e0 assms have "truthy (scripts e0)" by (simp add: entry_ok_def)
    from scoreOf_formula [OF this h] show "score e = truthy_score (calculateScores xs sp) sp e"
      by (simp add: e)
  qed
qed

lemma truthy_score_set:
  "set xs = set ys \<Longrightarrow> truthy_score xs sp e = truthy_score ys sp e"
  by (simp add: truthy_score_def list_ex_iff)

lemma searched_ok: "\<forall>e \<in> set (fst (searched roots fs sp opts)). entry_ok sp e"
proof
  fix e
  assume e: "e \<in> set (fst (searched roots fs sp opts))"
  from parse_Some(7) [OF searched_entry(1) [OF e]] reached_start [OF searched_entry(3) [OF e]]
  show "entry_ok sp e" by (simp add: entry_ok_def)
qed

lemma discoverRun_ok: "\<forall>e \<in> set (discoverRun roots fs sp opts). entry_ok sp e"
  using searched_ok [of roots fs sp opts] by (auto simp: set_discoverRun)

lemma discoverRun_formula:
  "\<forall>e \<in> set (discoverRun roots fs sp opts). score e = truthy_score (discoverRun roots fs sp opts) sp e"
proof -
  let ?c = "calculateScores (fst (searched roots fs sp opts)) sp"
  have s: "set (discoverRun roots fs sp opts) = set ?c"
    by (simp add: discoverRun_searched sortByScore_def)
  from calculateScores_formula [OF searched_ok, of roots fs sp opts] show ?thesis
    unfolding s using truthy_score_set [OF s] by simp
qed

lemma spread_asOptions [simp]: "spread DEFAULT_OPTIONS (asOptions opts) = opts"
  by (simp add: spread_def asOptions_def)

lemma map_nth_append_upt:
  "map (\<lambda>r. (xs @ ys) ! r) [length xs ..< length xs + length ys] = ys"
  by (rule nth_equalityI) (simp_all add: nth_append)

lemma upt_append_runs: "[n ..< n + a] @ [n + a ..< n + a + b] = [n ..< n + (a + b)]"
  using upt_add_eq_append [of n "n + a" b] by (simp add: add.assoc)

text \<open>What a call that does not answer from the cache adds to the store.\<close>

lemma discover_alloc:
  assumes "discoverPackageJsonFiles fs sp options s = (a, s')"
    and "cacheResults (spread DEFAULT_OPTIONS options) \<longrightarrow>
           cache s (sp, spread DEFAULT_OPTIONS options) = None"
  shows "a = length (arrays s)"
    and "arrays s' = arrays s @
           [[length (objects s) ..< length (objects s) +
               length (discoverRun (workspaceRoots s) fs sp (spread DEFAULT_OPTIONS options))]]"
    and "objects s' = objects s @ discoverRun (workspaceRoots s) fs sp (spread DEFAULT_OPTIONS options)"
    and "workspaceRoots s' = workspaceRoots s"
  using assms
  by (auto simp: discoverPackageJsonFiles_def newArray_def Let_def split: if_splits)

lemma fold_setScore:
  assumes "\<forall>r \<in> set rs. r < length (objects s)"
  shows "arrays (fold (\<lambda>r s'. setScore r (scoreOf h sp (objects s' ! r)) s') rs s) = arrays s \<and>
         objects (fold (\<lambda>r s'. setScore r (scoreOf h sp (objects s' ! r)) s') rs s) =
           map (\<lambda>r. if r \<in> set rs then (objects s ! r)\<lparr>score := scoreOf h sp (objects s ! r)\<rparr>
                      else objects s ! r) [0 ..< length (objects s)]"
  using assms
proof (induction rs arbitrary: s)
  case Nil
  then show ?case by (simp add: map_nth)
next
  case (Cons r rs)
  let ?s1 = "setScore r (scoreOf h sp (objects s ! r)) s"
  have len: "length (objects ?s1) = length (objects s)" by (simp add: setScore_def)
  have arr: "arrays ?s1 = arrays s" by (simp add: setScore_def)
  from Cons.prems have v: "\<forall>r \<in> set rs. r < length (objects ?s1)" by (simp add: len)
  have nth: "objects ?s1 ! k =
      (if k = r then (objects s ! r)\<lparr>score := scoreOf h sp (objects s ! r)\<rparr> else objects s ! k)"
    if "k < length (objects s)" for k
    using that by (simp add: setScore_def nth_list_update)
  from Cons.IH [OF v] show ?case
    by (auto simp: len arr nth intro!: nth_equalityI)
qed

lemma calculateScoresIn_contents:
  assumes "\<forall>r \<in> set (arrays s ! a). r < length (objects s)"
  shows "contents (calculateScoresIn a sp s) a = calculateScores (contents s a) sp"
    and "arrays (calculateScoresIn a sp s) = arrays s"
    and "length (objects (calculateScoresIn a sp s)) = length (objects s)"
  using fold_setScore [OF assms, of "list_ex (atStartPath sp) (contents s a)" sp] assms
  by (auto simp: calculateScoresIn_def contents_def calculateScores_def Let_def)

lemma sortIn_contents:
  assumes "a < length (arrays s)"
  shows "set (contents (sortIn a s) a) = set (contents s a)"
  using assms by (simp add: sortIn_def contents_def)

lemma getBest_rescored:
  assumes miss: "cacheResults (spread DEFAULT_OPTIONS options) \<longrightarrow>
                   cache s (sp, spread DEFAULT_OPTIONS options) = None"
    and d1: "discoverPackageJsonFiles fs sp (asOptions (spread DEFAULT_OPTIONS options)) s = (a, s1)"
    and gb: "getBestPackageJson fs sp options s = (best, s')"
  shows "\<forall>e \<in> set (contents s' a). score e = truthy_score (contents s' a) sp e"
proof -
  let ?opts = "spread DEFAULT_OPTIONS options"
  let ?run1 = "discoverRun (workspaceRoots s) fs sp ?opts"
  from miss have miss1: "cacheResults (spread DEFAULT_OPTIONS (asOptions ?opts)) \<longrightarrow>
      cache s (sp, spread DEFAULT_OPTIONS (asOptions ?opts)) = None" by simp
  note al1 = discover_alloc [OF d1 miss1, simplified]
  have c1: "contents s1 a = ?run1" using discover_miss [OF d1 miss1] by simp
  show ?thesis
  proof (cases "\<not> list_ex (\<lambda>info. directory info = sp) (contents s1 a) \<and> maxDepthDown ?opts > 0")
    case False
    then have "s' = s1" using gb d1 by (auto simp: getBestPackageJson_def Let_def)
    then show ?thesis using discoverRun_formula [of "workspaceRoots s" fs sp ?opts] c1 by simp
  next
    case True
    let ?opts2 = "?opts\<lparr>maxDepthUp := 0, maxDepthDown := min (maxDepthDown ?opts) 2,
                    cacheResults := False\<rparr>"
    let ?run2 = "discoverRun (workspaceRoots s) fs sp ?opts2"
    obtain c s2 where d2: "discoverPackageJsonFiles fs sp (asOptions ?opts2) s1 = (c, s2)"
      by (cases "discoverPackageJsonFiles fs sp (asOptions ?opts2) s1")
    have miss2: "cacheResults (spread DEFAULT_OPTIONS (asOptions ?opts2)) \<longrightarrow>
        cache s1 (sp, spread DEFAULT_OPTIONS (asOptions ?opts2)) = None" by simp
    note al2 = discover_alloc [OF d2 miss2, simplified, unfolded al1]
    let ?n = "length (objects s)"
    let ?refs1 = "[?n ..< ?n + length ?run1]"
    let ?refs2 = "[?n + length ?run1 ..< ?n + length ?run1 + length ?run2]"
    let ?s3 = "s2\<lparr>arrays := (arrays s2)[a := arrays s2 ! a @ arrays s2 ! c]\<rparr>"
    have a2: "arrays s2 = arrays s @ [?refs1] @ [?refs2]" and o2: "objects s2 = objects s @ ?run1 @ ?run2"
      using al2 by simp_all
    have ra: "arrays ?s3 ! a = ?refs1 @ ?refs2"
      by (simp add: a2 al1(1) al2(1) nth_append)
    then have ra': "arrays ?s3 ! a = [?n ..< ?n + length (?run1 @ ?run2)]"
      by (simp only: upt_append_runs length_append)
    have c3: "contents ?s3 a = ?run1 @ ?run2"
      unfolding contents_def ra' using map_nth_append_upt [of "objects s" "?run1 @ ?run2"]
      by (simp add: o2)
    have valid: "\<forall>r \<in> set (arrays ?s3 ! a). r < length (objects ?s3)"
      unfolding ra' by (simp add: o2)
    let ?s4 = "calculateScoresIn a sp ?s3"
    have c4: "contents ?s4 a = calculateScores (?run1 @ ?run2) sp"
      using calculateScoresIn_contents(1) [OF valid] c3 by simp
    have la: "a < length (arrays ?s4)"
      using calculateScoresIn_contents(2) [OF valid, of sp] by (simp add: a2 al1(1))
    have s': "s' = sortIn a ?s4"
      using gb d1 d2 True by (simp add: getBestPackageJson_def Let_def)
    have st: "set (contents s' a) = set (calculateScores (?run1 @ ?run2) sp)"
      unfolding s' using sortIn_contents [OF la] c4 by simp
    have ok: "\<forall>e \<in> set (?run1 @ ?run2). entry_ok sp e"
      using discoverRun_ok [of "workspaceRoots s" fs sp] by auto
    from calculateScores_formula [OF ok] show ?thesis
      unfolding st using truthy_score_set [OF st] by simp
  qed
qed

lemma relevant_sorted:
  assumes "analyzeProjectContext fs cp options s = (ctx, s1)"
  shows "sorted (map (\<lambda>r. - score (objects s1 ! r)) (relevantPackageJsons ctx))"
  using assms
  by (auto simp: analyzeProjectContext_def filterRelevantPackageJsons_def Let_def
      split: prod.splits)

section \<open>The service in its reachable states\<close>

lemma run_upward_entry:
  assumes "0 \<le> maxDepthUp opts" "e \<in> set (discoverRun roots fs sp opts)"
  shows "upR sp (directory e) (distance e) \<and> int (distance e) \<le> maxDepthUp opts"
proof -
  from assms(2) obtain e0 where e0: "e0 \<in> set (fst (searched roots fs sp opts))"
    and d: "directory e = directory e0" "distance e = distance e0"
    by (auto simp: set_discoverRun)
  from e0 upward_inv [where sp = sp and roots = roots and fs = fs and maxDepth = "maxDepthUp opts"]
  show ?thesis by (simp add: searched_upward [OF assms(1)] search_inv_def d)
qed

lemma run_result_ok: "result_ok sp opts (discoverRun roots fs sp opts)"
proof -
  have "path e = path_join (directory e) ''package.json'' \<and> 0 \<le> score e"
    if "e \<in> set (discoverRun roots fs sp opts)" for e
  proof -
    from that obtain e0 h where e0: "e0 \<in> set (fst (searched roots fs sp opts))"
      and e: "e = e0\<lparr>score := scoreOf h sp e0\<rparr>"
      by (auto simp: set_discoverRun)
    from searched_entry(2) [OF e0] show ?thesis by (simp add: e scoreOf_nonneg)
  qed
  then show ?thesis
    using discoverRun_distinct [of roots fs sp opts] discoverRun_ok [of roots fs sp opts]
      run_upward_entry [of opts _ roots fs sp]
    by (auto simp: result_ok_def)
qed

lemma run_probe_directory:
  assumes "maxDepthUp opts = 0" "e \<in> set (discoverRun roots fs sp opts)"
  shows "directory e = sp"
  using run_upward_entry [of opts e roots fs sp] assms by (simp add: upR_def)

lemma score_change_refl: "score_change s s"
proof -
  have "\<exists>v. objects s ! r = (objects s ! r)\<lparr>score := v\<rparr> \<and> (0 \<le> score (objects s ! r) \<longrightarrow> 0 \<le> v)"
    for r
    by (intro exI [where x = "score (objects s ! r)"]) simp
  then show ?thesis by (simp add: score_change_def)
qed

lemma score_change_trans:
  assumes "score_change s s'" "score_change s' s''"
  shows "score_change s s''"
proof -
  have "\<exists>v. objects s'' ! r = (objects s ! r)\<lparr>score := v\<rparr> \<and> (0 \<le> score (objects s ! r) \<longrightarrow> 0 \<le> v)"
    if r: "r < length (objects s)" for r
  proof -
    from assms(1) r obtain v where v: "objects s' ! r = (objects s ! r)\<lparr>score := v\<rparr>"
      "0 \<le> score (objects s ! r) \<longrightarrow> 0 \<le> v" by (auto simp: score_change_def)
    from assms r obtain w where w: "objects s'' ! r = (objects s' ! r)\<lparr>score := w\<rparr>"
      "0 \<le> score (objects s' ! r) \<longrightarrow> 0 \<le> w" by (auto simp: score_change_def)
    from v w show ?thesis by (intro exI [where x = w]) simp
  qed
  with assms show ?thesis by (simp add: score_change_def)
qed

lemma score_change_setScore:
  assumes "r < length (objects s) \<longrightarrow> 0 \<le> score (objects s ! r) \<longrightarrow> 0 \<le> v"
  shows "score_change s (setScore r v s)"
proof -
  have "\<exists>w. (objects s)[r := (objects s ! r)\<lparr>score := v\<rparr>] ! k = (objects s ! k)\<lparr>score := w\<rparr> \<and>
          (0 \<le> score (objects s ! k) \<longrightarrow> 0 \<le> w)" if "k < length (objects s)" for k
  proof (cases "k = r")
    case True
    with that assms show ?thesis by (intro exI [where x = v]) simp
  next
    case False
    with that show ?thesis by (intro exI [where x = "score (objects s ! k)"]) simp
  qed
  then show ?thesis by (simp add: score_change_def setScore_def)
qed

lemma score_change_fold:
  assumes "\<And>r s. score_change s (f r s)"
  shows "score_change s (fold f rs s)"
proof (induction rs arbitrary: s)
  case Nil
  show ?case by (simp add: score_change_refl)
next
  case (Cons r rs)
  from score_change_trans [OF assms [of s r] Cons.IH [of "f r s"]] show ?case by simp
qed

lemma score_change_addBonus: "score_change s (addBonus pkg s)"
  by (auto simp: addBonus_def score_change_refl intro!: score_change_setScore)

lemma score_change_calculateScoresIn: "score_change s (calculateScoresIn a sp s)"
  unfolding calculateScoresIn_def Let_def
  by (rule score_change_fold) (simp add: score_change_setScore scoreOf_nonneg)

lemma result_ok_score_change:
  assumes "result_ok sp opts (map (\<lambda>r. objects s ! r) rs)" "score_change s s'"
    "\<forall>r \<in> set rs. r < length (objects s)"
  shows "result_ok sp opts (map (\<lambda>r. objects s' ! r) rs)"
proof -
  have ch: "\<exists>v. objects s' ! r = (objects s ! r)\<lparr>score := v\<rparr> \<and> (0 \<le> score (objects s ! r) \<longrightarrow> 0 \<le> v)"
    if "r \<in> set rs" for r
    using that assms(2,3) by (auto simp: score_change_def)
  have p: "map (\<lambda>r. path (objects s' ! r)) rs = map (\<lambda>r. path (objects s ! r)) rs"
  proof (rule map_cong [OF refl])
    fix r assume "r \<in> set rs"
    from ch [OF this] obtain v where "objects s' ! r = (objects s ! r)\<lparr>score := v\<rparr>" by blast
    then show "path (objects s' ! r) = path (objects s ! r)" by simp
  qed
  have "path (objects s' ! r) = path_join (directory (objects s' ! r)) ''package.json'' \<and>
        entry_ok sp (objects s' ! r) \<and> 0 \<le> score (objects s' ! r) \<and>
        (0 \<le> maxDepthUp opts \<longrightarrow> upR sp (directory (objects s' ! r)) (distance (objects s' ! r)))"
    if r: "r \<in> set rs" for r
  proof -
    from ch [OF r] obtain v where v: "objects s' ! r = (objects s ! r)\<lparr>score := v\<rparr>"
      "0 \<le> score (objects s ! r) \<longrightarrow> 0 \<le> v" by blast
    from assms(1) r have "path (objects s ! r) = path_join (directory (objects s ! r)) ''package.json'' \<and>
        entry_ok sp (objects s ! r) \<and> 0 \<le> score (objects s ! r) \<and>
        (0 \<le> maxDepthUp opts \<longrightarrow> upR sp (directory (objects s ! r)) (distance (objects s ! r)))"
      by (simp add: result_ok_def)
    with v show ?thesis by simp
  qed
  then have e: "\<forall>e \<in> set (map (\<lambda>r. objects s' ! r) rs).
      path e = path_join (directory e) ''package.json'' \<and> entry_ok sp e \<and> 0 \<le> score e \<and>
      (0 \<le> maxDepthUp opts \<longrightarrow> upR sp (directory e) (distance e))"
    by auto
  from assms(1) have "distinct (map (\<lambda>r. path (objects s ! r)) rs)"
    by (simp add: result_ok_def comp_def)
  then have "distinct (map path (map (\<lambda>r. objects s' ! r) rs))"
    by (simp only: map_map comp_def p)
  with e show ?thesis unfolding result_ok_def by blast
qed

lemma service_ok_score_change:
  assumes "service_ok s" "score_change s s'"
  shows "service_ok s'"
proof -
  from assms(2) have eq: "cache s' = cache s" "arrays s' = arrays s"
    "length (objects s') = length (objects s)" by (simp_all add: score_change_def)
  have "result_ok sp opts (contents s' a)" if c: "cache s (sp, opts) = Some a" for sp opts a
  proof -
    from assms(1) c have a: "a < length (arrays s)" and r: "result_ok sp opts (contents s a)"
      by (auto simp: service_ok_def)
    from assms(1) a have v: "\<forall>r \<in> set (arrays s ! a). r < length (objects s)"
      by (simp add: service_ok_def)
    from result_ok_score_change [OF r [unfolded contents_def] assms(2) v]
    show ?thesis by (simp add: contents_def eq)
  qed
  with assms(1) show ?thesis by (simp add: service_ok_def eq)
qed

lemma service_ok_new: "service_ok (newService folders)"
  by (simp add: service_ok_def newService_def)

lemma service_ok_clear: "service_ok s \<Longrightarrow> service_ok (clearCache s)"
  by (simp add: service_ok_def clearCache_def)

lemma service_ok_refresh: "service_ok s \<Longrightarrow> service_ok (refreshWorkspaceRoots folders s)"
  by (simp add: service_ok_def clearCache_def refreshWorkspaceRoots_def)

lemma service_okD:
  assumes "service_ok s"
  shows "cache s k = Some a \<Longrightarrow> a < length (arrays s)"
    and "a < length (arrays s) \<Longrightarrow> r \<in> set (arrays s ! a) \<Longrightarrow> r < length (objects s)"
    and "cache s k = Some a \<Longrightarrow> cache s k' = Some a \<Longrightarrow> k = k'"
    and "cache s (sp, opts) = Some a \<Longrightarrow> result_ok sp opts (contents s a)"
  using assms unfolding service_ok_def by blast+

lemma service_okI:
  assumes "\<And>k a. cache s k = Some a \<Longrightarrow> a < length (arrays s)"
    and "\<And>a r. a < length (arrays s) \<Longrightarrow> r \<in> set (arrays s ! a) \<Longrightarrow> r < length (objects s)"
    and "\<And>k k' a. cache s k = Some a \<Longrightarrow> cache s k' = Some a \<Longrightarrow> k = k'"
    and "\<And>sp opts a. cache s (sp, opts) = Some a \<Longrightarrow> result_ok sp opts (contents s a)"
  shows "service_ok s"
  using assms unfolding service_ok_def by blast

lemma discover_cache:
  assumes "discoverPackageJsonFiles fs sp options s = (a, s')"
    and "cacheResults (spread DEFAULT_OPTIONS options) \<longrightarrow>
           cache s (sp, spread DEFAULT_OPTIONS options) = None"
  shows "cache s' = (if cacheResults (spread DEFAULT_OPTIONS options)
                     then (cache s)((sp, spread DEFAULT_OPTIONS options) \<mapsto> a) else cache s)"
  using assms
  by (auto simp: discoverPackageJsonFiles_def newArray_def Let_def split: if_splits)

lemma discover_hit:
  assumes "discoverPackageJsonFiles fs sp options s = (a, s')"
    and "cacheResults (spread DEFAULT_OPTIONS options)"
    and "cache s (sp, spread DEFAULT_OPTIONS options) \<noteq> None"
  shows "s' = s" and "cache s (sp, spread DEFAULT_OPTIONS options) = Some a"
  using assms by (auto simp: discoverPackageJsonFiles_def Let_def)

lemma contents_extend:
  assumes "arrays s' = arrays s @ xs" "objects s' = objects s @ ys"
    "a < length (arrays s)" "\<forall>r \<in> set (arrays s ! a). r < length (objects s)"
  shows "contents s' a = contents s a"
  using assms by (simp add: contents_def nth_append)

lemma service_ok_array_update:
  assumes ok: "service_ok s" and a: "a < length (arrays s)"
    and v: "\<forall>r \<in> set rs. r < length (objects s)"
    and r: "\<forall>sp opts. cache s (sp, opts) = Some a \<longrightarrow> result_ok sp opts (map (\<lambda>r. objects s ! r) rs)"
  shows "service_ok (s\<lparr>arrays := (arrays s)[a := rs]\<rparr>)"
proof (rule service_okI)
  let ?s' = "s\<lparr>arrays := (arrays s)[a := rs]\<rparr>"
  fix k b
  assume "cache ?s' k = Some b"
  then show "b < length (arrays ?s')" using service_okD(1) [OF ok, of k b] by simp
next
  let ?s' = "s\<lparr>arrays := (arrays s)[a := rs]\<rparr>"
  fix b x
  assume b: "b < length (arrays ?s')" and x: "x \<in> set (arrays ?s' ! b)"
  show "x < length (objects ?s')"
  proof (cases "b = a")
    case True
    with x a v show ?thesis by simp
  next
    case False
    with x b service_okD(2) [OF ok, of b x] show ?thesis by simp
  qed
next
  let ?s' = "s\<lparr>arrays := (arrays s)[a := rs]\<rparr>"
  fix k k' b
  assume "cache ?s' k = Some b" "cache ?s' k' = Some b"
  then show "k = k'" using service_okD(3) [OF ok, of k b k'] by simp
next
  let ?s' = "s\<lparr>arrays := (arrays s)[a := rs]\<rparr>"
  fix sp opts b
  assume c: "cache ?s' (sp, opts) = Some b"
  then have c0: "cache s (sp, opts) = Some b" by simp
  show "result_ok sp opts (contents ?s' b)"
  proof (cases "b = a")
    case True
    with c0 r a show ?thesis by (simp add: contents_def)
  next
    case False
    with service_okD(4) [OF ok c0] service_okD(1) [OF ok c0] show ?thesis
      by (simp add: contents_def)
  qed
qed

lemma discover_ok:
  assumes ok: "service_ok s" and d: "discoverPackageJsonFiles fs sp options s = (a, s')"
  shows "service_ok s'"
    and "a < length (arrays s')"
    and "\<forall>r \<in> set (arrays s' ! a). r < length (objects s')"
    and "result_ok sp (spread DEFAULT_OPTIONS options) (contents s' a)"
    and "\<forall>k. cache s' k = Some a \<longrightarrow> k = (sp, spread DEFAULT_OPTIONS options)"
proof -
  let ?opts = "spread DEFAULT_OPTIONS options"
  let ?run = "discoverRun (workspaceRoots s) fs sp ?opts"
  have "service_ok s' \<and> a < length (arrays s') \<and> (\<forall>r \<in> set (arrays s' ! a). r < length (objects s'))
      \<and> result_ok sp ?opts (contents s' a) \<and> (\<forall>k. cache s' k = Some a \<longrightarrow> k = (sp, ?opts))"
  proof (cases "cacheResults ?opts \<and> cache s (sp, ?opts) \<noteq> None")
    case True
    with discover_hit [OF d] have s': "s' = s" and c: "cache s (sp, ?opts) = Some a" by simp_all
    have "a < length (arrays s)" by (rule service_okD(1) [OF ok c])
    moreover have "result_ok sp ?opts (contents s a)" by (rule service_okD(4) [OF ok c])
    moreover have "\<forall>k. cache s k = Some a \<longrightarrow> k = (sp, ?opts)"
      using service_okD(3) [OF ok _ c] by blast
    moreover from \<open>a < length (arrays s)\<close> have "\<forall>r \<in> set (arrays s ! a). r < length (objects s)"
      using service_okD(2) [OF ok] by blast
    ultimately show ?thesis using ok by (simp add: s')
  next
    case False
    then have miss: "cacheResults ?opts \<longrightarrow> cache s (sp, ?opts) = None" by simp
    note al = discover_alloc [OF d miss]
    note ca = discover_cache [OF d miss]
    have ca': "cache s' k = Some b \<Longrightarrow> cache s k = Some b \<or> (b = a \<and> k = (sp, ?opts))" for k b
      by (auto simp: ca split: if_splits)
    have fresh: "cache s k \<noteq> Some a" for k
      using service_okD(1) [OF ok, of k a] al(1) by auto
    have old: "contents s' b = contents s b" if "b < length (arrays s)" for b
      using contents_extend [OF al(2,3) that] service_okD(2) [OF ok that] by blast
    have new: "contents s' a = ?run" by (rule discover_miss [OF d miss])
    have i1: "\<forall>k b. cache s' k = Some b \<longrightarrow> b < length (arrays s')"
    proof (intro allI impI)
      fix k b
      assume "cache s' k = Some b"
      from ca' [OF this] show "b < length (arrays s')"
        using service_okD(1) [OF ok, of k b] by (auto simp: al(1,2))
    qed
    have i2: "\<forall>b < length (arrays s'). \<forall>r \<in> set (arrays s' ! b). r < length (objects s')"
    proof (intro allI impI ballI)
      fix b r
      assume b: "b < length (arrays s')" and r: "r \<in> set (arrays s' ! b)"
      show "r < length (objects s')"
      proof (cases "b < length (arrays s)")
        case True
        with r service_okD(2) [OF ok True, of r] show ?thesis by (simp add: al(2,3) nth_append)
      next
        case False
        with b have "b = length (arrays s)" by (simp add: al(2))
        with r show ?thesis by (auto simp: al(2,3))
      qed
    qed
    have i3: "\<forall>k k' b. cache s' k = Some b \<and> cache s' k' = Some b \<longrightarrow> k = k'"
    proof (intro allI impI)
      fix k k' b
      assume "cache s' k = Some b \<and> cache s' k' = Some b"
      with ca' [of k b] ca' [of k' b] fresh [of k] fresh [of k']
        service_okD(3) [OF ok, of k b k'] show "k = k'"
        by blast
    qed
    have i4: "\<forall>sp' opts' b. cache s' (sp', opts') = Some b \<longrightarrow> result_ok sp' opts' (contents s' b)"
    proof (intro allI impI)
      fix sp' opts' b
      assume c: "cache s' (sp', opts') = Some b"
      from ca' [OF c] show "result_ok sp' opts' (contents s' b)"
      proof
        assume c0: "cache s (sp', opts') = Some b"
        from service_okD(1) [OF ok c0] service_okD(4) [OF ok c0]
        show ?thesis by (simp add: old)
      next
        assume "b = a \<and> (sp', opts') = (sp, ?opts)"
        then show ?thesis by (simp add: new run_result_ok)
      qed
    qed
    have va: "\<forall>r \<in> set (arrays s' ! a). r < length (objects s')"
      by (simp add: al(1,2,3))
    have ka: "\<forall>k. cache s' k = Some a \<longrightarrow> k = (sp, ?opts)"
      using ca' fresh by blast
    have ok': "service_ok s'" using i1 i2 i3 i4 unfolding service_ok_def by blast
    have la: "a < length (arrays s')" by (simp add: al(1,2))
    have ra: "result_ok sp ?opts (contents s' a)" by (simp add: new run_result_ok)
    from ok' la va ra ka show ?thesis by blast
  qed
  then show "service_ok s'" "a < length (arrays s')"
    "\<forall>r \<in> set (arrays s' ! a). r < length (objects s')"
    "result_ok sp ?opts (contents s' a)"
    "\<forall>k. cache s' k = Some a \<longrightarrow> k = (sp, ?opts)"
    by blast+
qed

lemma result_ok_sorted:
  assumes "result_ok sp opts (map f rs)"
  shows "result_ok sp opts (map f (sort_key g rs))"
proof -
  from assms have "distinct (map (\<lambda>r. path (f r)) rs)" by (simp add: result_ok_def comp_def)
  then have "distinct (map (\<lambda>r. path (f r)) (sort_key g rs))" by (simp only: distinct_map_sort_key)
  then show ?thesis using assms by (simp add: result_ok_def comp_def)
qed

lemma result_ok_merge:
  assumes xs: "result_ok sp opts xs" and ys: "result_ok sp opts2 ys"
    and up: "0 \<le> maxDepthUp opts2"
    and at: "\<forall>e \<in> set ys. directory e = sp"
    and no: "\<not> list_ex (\<lambda>info. directory info = sp) xs"
  shows "result_ok sp opts (xs @ ys)"
proof -
  have disj: "path x \<noteq> path y" if "x \<in> set xs" "y \<in> set ys" for x y
  proof
    assume eq: "path x = path y"
    from xs that(1) have "path x = path_join (directory x) ''package.json''" by (simp add: result_ok_def)
    moreover from ys that(2) have "path y = path_join (directory y) ''package.json''"
      by (simp add: result_ok_def)
    ultimately have "directory x = directory y" using eq by simp
    with at that(2) no that(1) show False by (auto simp: list_ex_iff)
  qed
  then have "set (map path xs) \<inter> set (map path ys) = {}" by auto
  with xs ys have d: "distinct (map path (xs @ ys))" by (simp add: result_ok_def)
  have "path e = path_join (directory e) ''package.json'' \<and> entry_ok sp e \<and> 0 \<le> score e \<and>
        (0 \<le> maxDepthUp opts \<longrightarrow> upR sp (directory e) (distance e))"
    if "e \<in> set (xs @ ys)" for e
    using that xs ys up by (auto simp: result_ok_def)
  with d show ?thesis unfolding result_ok_def by blast
qed

lemma analyze_state:
  "score_change (snd (discoverPackageJsonFiles fs cp
      (no_options\<lparr>optMaxDepthUp := Some (if includeParentProjects (smartSpread options) then 10 else 0),
         optMaxDepthDown := Some 5\<rparr>) s))
     (snd (analyzeProjectContext fs cp options s))"
  by (auto simp: analyzeProjectContext_def filterRelevantPackageJsons_def Let_def
      score_change_refl split: prod.splits
      intro!: score_change_fold score_change_addBonus)

lemma analyze_ok:
  assumes "service_ok s"
  shows "service_ok (snd (analyzeProjectContext fs cp options s))"
proof -
  let ?o = "no_options\<lparr>optMaxDepthUp := Some (if includeParentProjects (smartSpread options) then 10 else 0),
         optMaxDepthDown := Some 5\<rparr>"
  obtain a s1 where d: "discoverPackageJsonFiles fs cp ?o s = (a, s1)"
    by (cases "discoverPackageJsonFiles fs cp ?o s")
  from discover_ok(1) [OF assms d] analyze_state [of fs cp options s] d
  show ?thesis by (auto intro: service_ok_score_change)
qed

text \<open>
  What \<^verbatim>\<open>getBestPackageJson\<close> does when it merges its probe: the merged array holds
  entries of runs for the start path, is scored as a whole, then sorted.
\<close>

lemma getBest_merge:
  assumes ok: "service_ok s"
    and d1: "discoverPackageJsonFiles fs sp (asOptions (spread DEFAULT_OPTIONS options)) s = (a, s1)"
    and br: "\<not> list_ex (\<lambda>info. directory info = sp) (contents s1 a) \<and>
             maxDepthDown (spread DEFAULT_OPTIONS options) > 0"
  shows "\<exists>s4 xs. snd (getBestPackageJson fs sp options s) = sortIn a s4 \<and> service_ok s4 \<and>
           a < length (arrays s4) \<and> contents s4 a = calculateScores xs sp \<and>
           (\<forall>e \<in> set xs. entry_ok sp e)"
proof -
  let ?opts = "spread DEFAULT_OPTIONS options"
  note k1 = discover_ok [OF ok d1, simplified]
  let ?opts2 = "?opts\<lparr>maxDepthUp := 0, maxDepthDown := min (maxDepthDown ?opts) 2,
                  cacheResults := False\<rparr>"
  let ?run2 = "discoverRun (workspaceRoots s1) fs sp ?opts2"
  obtain c s2 where d2: "discoverPackageJsonFiles fs sp (asOptions ?opts2) s1 = (c, s2)"
    by (cases "discoverPackageJsonFiles fs sp (asOptions ?opts2) s1")
  have miss2: "cacheResults (spread DEFAULT_OPTIONS (asOptions ?opts2)) \<longrightarrow>
      cache s1 (sp, spread DEFAULT_OPTIONS (asOptions ?opts2)) = None" by simp
  note al2 = discover_alloc [OF d2 miss2, simplified]
  have ca2: "cache s2 = cache s1" using discover_cache [OF d2 miss2] by simp
  note k2 = discover_ok [OF k1(1) d2, simplified]
  have a2: "a < length (arrays s2)" using k1(2) by (simp add: al2(2))
  have ca: "contents s2 a = contents s1 a"
    using contents_extend [OF al2(2,3) k1(2)] k1(3) by blast
  have cc: "contents s2 c = ?run2" using discover_miss [OF d2 miss2] by simp
  let ?rs = "arrays s2 ! a @ arrays s2 ! c"
  let ?s3 = "s2\<lparr>arrays := (arrays s2)[a := ?rs]\<rparr>"
  have v: "\<forall>r \<in> set ?rs. r < length (objects s2)"
    using k2(3) service_okD(2) [OF k2(1) a2] by auto
  have m: "result_ok sp ?opts (contents s2 a @ contents s2 c)"
  proof (rule result_ok_merge [where ?opts2.0 = ?opts2])
    show "result_ok sp ?opts (contents s2 a)" using k1(4) by (simp add: ca)
    show "result_ok sp ?opts2 (contents s2 c)" by (simp add: cc run_result_ok)
    show "0 \<le> maxDepthUp ?opts2" by simp
    show "\<forall>e \<in> set (contents s2 c). directory e = sp"
      using run_probe_directory [of ?opts2 _ "workspaceRoots s1" fs sp] by (simp add: cc)
    show "\<not> list_ex (\<lambda>info. directory info = sp) (contents s2 a)" using br by (simp add: ca)
  qed
  have r: "\<forall>sp' opts'. cache s2 (sp', opts') = Some a \<longrightarrow>
             result_ok sp' opts' (map (\<lambda>r. objects s2 ! r) ?rs)"
  proof (intro allI impI)
    fix sp' opts'
    assume "cache s2 (sp', opts') = Some a"
    with k1(5) have "(sp', opts') = (sp, ?opts)" by (simp add: ca2)
    with m show "result_ok sp' opts' (map (\<lambda>r. objects s2 ! r) ?rs)"
      by (simp add: contents_def)
  qed
  have ok3: "service_ok ?s3" by (rule service_ok_array_update [OF k2(1) a2 v r])
  have c3: "contents ?s3 a = contents s2 a @ contents s2 c"
    using a2 by (simp add: contents_def)
  have v3: "\<forall>r \<in> set (arrays ?s3 ! a). r < length (objects ?s3)"
    using v a2 by simp
  let ?s4 = "calculateScoresIn a sp ?s3"
  have sc: "score_change ?s3 ?s4" by (rule score_change_calculateScoresIn)
  have ok4: "service_ok ?s4" by (rule service_ok_score_change [OF ok3 sc])
  have a4: "a < length (arrays ?s4)" using sc a2 by (simp add: score_change_def)
  have c4: "contents ?s4 a = calculateScores (contents s2 a @ contents s2 c) sp"
    using calculateScoresIn_contents(1) [OF v3] c3 by simp
  have e4: "\<forall>e \<in> set (contents s2 a @ contents s2 c). entry_ok sp e"
    using m by (simp add: result_ok_def)
  have "snd (getBestPackageJson fs sp options s) = sortIn a ?s4"
    using d1 d2 br by (simp add: getBestPackageJson_def Let_def)
  with ok4 a4 c4 e4 show ?thesis by blast
qed

lemma getBest_ok:
  assumes ok: "service_ok s"
  shows "service_ok (snd (getBestPackageJson fs sp options s))"
proof -
  let ?opts = "spread DEFAULT_OPTIONS options"
  obtain a s1 where d1: "discoverPackageJsonFiles fs sp (asOptions ?opts) s = (a, s1)"
    by (cases "discoverPackageJsonFiles fs sp (asOptions ?opts) s")
  show ?thesis
  proof (cases "\<not> list_ex (\<lambda>info. directory info = sp) (contents s1 a) \<and> maxDepthDown ?opts > 0")
    case False
    then have "snd (getBestPackageJson fs sp options s) = s1"
      using d1 by (auto simp: getBestPackageJson_def Let_def)
    with discover_ok(1) [OF ok d1] show ?thesis by simp
  next
    case True
    from getBest_merge [OF ok d1 True] obtain s4 where
      s': "snd (getBestPackageJson fs sp options s) = sortIn a s4"
      and ok4: "service_ok s4" and a4: "a < length (arrays s4)" by blast
    let ?srt = "sort_key (\<lambda>r. - score (objects s4 ! r)) (arrays s4 ! a)"
    have v4: "\<forall>r \<in> set ?srt. r < length (objects s4)"
      using service_okD(2) [OF ok4 a4] by simp
    have r4: "\<forall>sp' opts'. cache s4 (sp', opts') = Some a \<longrightarrow>
               result_ok sp' opts' (map (\<lambda>r. objects s4 ! r) ?srt)"
    proof (intro allI impI)
      fix sp' opts'
      assume "cache s4 (sp', opts') = Some a"
      from service_okD(4) [OF ok4 this]
      show "result_ok sp' opts' (map (\<lambda>r. objects s4 ! r) ?srt)"
        unfolding contents_def by (rule result_ok_sorted)
    qed
    have "service_ok (sortIn a s4)"
      unfolding sortIn_def by (rule service_ok_array_update [OF ok4 a4 v4 r4])
    with s' show ?thesis by simp
  qed
qed

lemma getBest_merged_rescored:
  assumes ok: "service_ok s"
    and d1: "discoverPackageJsonFiles fs sp (asOptions (spread DEFAULT_OPTIONS options)) s = (a, s1)"
    and br: "\<not> list_ex (\<lambda>info. directory info = sp) (contents s1 a) \<and>
             maxDepthDown (spread DEFAULT_OPTIONS options) > 0"
  shows "\<forall>e \<in> set (contents (snd (getBestPackageJson fs sp options s)) a).
           score e = truthy_score (contents (snd (getBestPackageJson fs sp options s)) a) sp e"
proof -
  from getBest_merge [OF ok d1 br] obtain s4 xs where
    s': "snd (getBestPackageJson fs sp options s) = sortIn a s4"
    and a4: "a < length (arrays s4)" and c4: "contents s4 a = calculateScores xs sp"
    and e4: "\<forall>e \<in> set xs. entry_ok sp e" by blast
  have st: "set (contents (sortIn a s4) a) = set (calculateScores xs sp)"
    using sortIn_contents [OF a4] c4 by simp
  from calculateScores_formula [OF e4] show ?thesis
    unfolding s' st using truthy_score_set [OF st] by simp
qed

lemma discoverEach_ok:
  "service_ok s \<Longrightarrow> service_ok (snd (discoverEach fs folders acc s))"
proof (induction folders arbitrary: acc s)
  case Nil
  then show ?case by simp
next
  case (Cons w ws)
  let ?o = "no_options\<lparr>optMaxDepthUp := Some 0, optMaxDepthDown := Some 10\<rparr>"
  obtain a s1 where d: "discoverPackageJsonFiles fs w ?o s = (a, s1)"
    by (cases "discoverPackageJsonFiles fs w ?o s")
  from Cons.IH [OF discover_ok(1) [OF Cons.prems d]] d show ?case by simp
qed

lemma listing_ok:
  "service_ok s \<Longrightarrow> service_ok (snd (getWorkspacePackageJsonFiles fs s))"
  using discoverEach_ok [of s fs "workspaceRoots s" "[]"]
  by (auto simp: getWorkspacePackageJsonFiles_def Let_def split: prod.splits)

lemma reachable_ok: "reachable s \<Longrightarrow> service_ok s"
proof (induction rule: reachable.induct)
  case (discovered s fs sp options)
  then show ?case
    using discover_ok(1) [of s fs sp options] by (cases "discoverPackageJsonFiles fs sp options s") simp
qed (simp_all add: service_ok_new getBest_ok analyze_ok listing_ok service_ok_clear service_ok_refresh)

text \<open>What a call of \<^verbatim>\<open>discoverPackageJsonFiles\<close> returns in a reachable state.\<close>

lemma discover_reachable:
  assumes "reachable s"
  shows "result_ok sp (spread DEFAULT_OPTIONS options)
           (contents (snd (discoverPackageJsonFiles fs sp options s))
              (fst (discoverPackageJsonFiles fs sp options s)))"
  using discover_ok(4) [OF reachable_ok [OF assms], of fs sp options
      "fst (discoverPackageJsonFiles fs sp options s)"
      "snd (discoverPackageJsonFiles fs sp options s)"]
  by simp

section \<open>Evaluating the service on the examples\<close>

lemmas run_eval =
  discoverRun_def Let_def searchUpward_stop searchUpward_step searchUpward_root
  searchDownward_stop searchDownward_leaf searchDownward_step
  visit_def path_join_def path_dirname_def fileExists_def parsePackageJson_def parseBody_def
  readJson_def readdir_def truthy_opt_def calculateScores_def scoreOf_def atStartPath_def
  hasCommonScripts_def commonScripts_def sortByScore_def
  shouldSkipDirectory_def startsWith_def skipDirs_def

lemmas service_eval =
  discoverPackageJsonFiles_def newArray_def newService_def contents_def Let_def
  DEFAULT_OPTIONS_def spread_def no_options_def

lemmas analyse_eval =
  analyzeProjectContext_def filterRelevantPackageJsons_def addBonus_def setScore_def
  isRelevant_def smartSpread_def no_smart_options_def getWorkspaceRoot_def pathString_def
  startsWith_def detectProjectType_def findRootPackageJson_def

lemma run_repo:
  "discoverRun roots fs_repo [''repo'']
     \<lparr>maxDepthUp = 10, maxDepthDown = 5, includeNodeModules = False,
      workspaceRootsOnly = False, cacheResults = True\<rparr> =
     [\<lparr>path = [''repo'', ''package.json''], directory = [''repo''], name = None, version = None,
       scripts = JObj [(''build'', JStr ''tsc''), (''test'', JStr ''jest'')],
       isWorkspaceRoot = ([''repo''] \<in> set roots), isMonorepoRoot = False, workspaces = None,
       distance = 0, score = (if [''repo''] \<in> set roots then 210 else 160)\<rparr>]"
  by (simp add: run_eval fs_repo_def)

lemma run_repo_down:
  "discoverRun [] fs_repo [''repo'']
     \<lparr>maxDepthUp = - 1, maxDepthDown = 5, includeNodeModules = False,
      workspaceRootsOnly = False, cacheResults = True\<rparr> =
     [\<lparr>path = [''repo'', ''package.json''], directory = [''repo''], name = None, version = None,
       scripts = JObj [(''build'', JStr ''tsc''), (''test'', JStr ''jest'')],
       isWorkspaceRoot = False, isMonorepoRoot = False, workspaces = None,
       distance = 0, score = 160\<rparr>,
      \<lparr>path = [''repo'', ''pkgs'', ''a'', ''package.json''],
       directory = [''repo'', ''pkgs'', ''a''], name = None, version = None,
       scripts = JObj [], isWorkspaceRoot = False, isMonorepoRoot = False,
       workspaces = None, distance = 2, score = 80\<rparr>]"
  by (simp add: run_eval fs_repo_def)

lemma run_near:
  "discoverRun [] fs_near [''a'', ''b'', ''c'']
     \<lparr>maxDepthUp = 10, maxDepthDown = 5, includeNodeModules = False,
      workspaceRootsOnly = False, cacheResults = True\<rparr> =
     [\<lparr>path = [''package.json''], directory = [], name = None, version = None,
       scripts = JObj [], isWorkspaceRoot = False, isMonorepoRoot = True,
       workspaces = Some (JArr [JStr ''packages/*'']), distance = 3, score = 100\<rparr>,
      \<lparr>path = [''a'', ''package.json''], directory = [''a''], name = None, version = None,
       scripts = JObj [], isWorkspaceRoot = False, isMonorepoRoot = False,
       workspaces = None, distance = 2, score = 80\<rparr>]"
  by (simp add: run_eval fs_near_def)

lemma run_broken:
  "map path (discoverRun [] fs_broken [''repo'']
     \<lparr>maxDepthUp = 10, maxDepthDown = 5, includeNodeModules = False,
      workspaceRootsOnly = False, cacheResults = True\<rparr>) = [[''package.json'']]"
  by (simp add: run_eval fs_broken_def)

lemma run_far:
  "discoverRun [] fs_far [''a'', ''b'', ''c'', ''d'', ''e'', ''f'', ''g'']
     \<lparr>maxDepthUp = 10, maxDepthDown = 5, includeNodeModules = False,
      workspaceRootsOnly = False, cacheResults = True\<rparr> =
     [\<lparr>path = [''a'', ''b'', ''c'', ''d'', ''package.json''], directory = [''a'', ''b'', ''c'', ''d''],
       name = None, version = None, scripts = JObj [], isWorkspaceRoot = False,
       isMonorepoRoot = True, workspaces = Some (JArr [JStr ''packages/*'']),
       distance = 3, score = 100\<rparr>,
      \<lparr>path = [''package.json''], directory = [], name = None, version = None,
       scripts = JObj [(''a'', JStr ''1''), (''b'', JStr ''1''), (''c'', JStr ''1''),
                       (''d'', JStr ''1''), (''e'', JStr ''1'')],
       isWorkspaceRoot = False, isMonorepoRoot = False, workspaces = None,
       distance = 7, score = 50\<rparr>]"
  by (simp add: run_eval fs_far_def)

lemma run_near_probe:
  "discoverRun [] fs_near [''a'', ''b'', ''c'']
     \<lparr>maxDepthUp = 0, maxDepthDown = 2, includeNodeModules = False,
      workspaceRootsOnly = False, cacheResults = False\<rparr> = []"
  by (simp add: run_eval fs_near_def)

lemma run_blank_build:
  "discoverRun [] fs_blank_build [''repo'']
     \<lparr>maxDepthUp = 10, maxDepthDown = 5, includeNodeModules = False,
      workspaceRootsOnly = False, cacheResults = True\<rparr> =
     [\<lparr>path = [''repo'', ''package.json''], directory = [''repo''], name = None, version = None,
       scripts = JObj [(''build'', JStr [])], isWorkspaceRoot = False, isMonorepoRoot = False,
       workspaces = None, distance = 0, score = 145\<rparr>]"
  by (simp add: run_eval fs_blank_build_def)

lemma shouldUse_far:
  "(case shouldUseSpecificPackageJson fs_far [''a'', ''b'', ''c'', ''d'', ''e'', ''f'', ''g'']
          (newService []) of
      (chosen, s') \<Rightarrow> (map_option (\<lambda>r. path (objects s' ! r)) chosen, map score (objects s')))
   = (Some [''a'', ''b'', ''c'', ''d'', ''package.json''], [100, 50])"
  by (simp add: shouldUseSpecificPackageJson_def chooseSpecific_def service_eval analyse_eval run_far)

lemma shouldUse_near:
  "(case shouldUseSpecificPackageJson fs_near [''a'', ''b'', ''c''] (newService []) of
      (chosen, s') \<Rightarrow> (map_option (\<lambda>r. path (objects s' ! r)) chosen, map score (objects s')))
   = (None, [100, 80])"
  by (simp add: shouldUseSpecificPackageJson_def chooseSpecific_def service_eval analyse_eval run_near)

lemma getBest_near:
  "(case getBestPackageJson fs_near [''a'', ''b'', ''c''] no_options (newService []) of
      (best, s') \<Rightarrow> (best, map score (contents s' 0)))
   = (Some 0, [100, 80])"
  by (simp add: getBestPackageJson_def calculateScoresIn_def sortIn_def setScore_def asOptions_def
      service_eval run_near run_near_probe scoreOf_def atStartPath_def hasCommonScripts_def
      commonScripts_def truthy_opt_def)

lemma run_nohoist:
  "map isMonorepoRoot
     (discoverRun [] fs_nohoist [''repo'']
        \<lparr>maxDepthUp = 10, maxDepthDown = 5, includeNodeModules = False,
         workspaceRootsOnly = False, cacheResults = True\<rparr>) = [True]"
  by (simp add: run_eval fs_nohoist_def)

lemma run_ws_false:
  "map isMonorepoRoot
     (discoverRun [] fs_ws_false [''repo'']
        \<lparr>maxDepthUp = 10, maxDepthDown = 5, includeNodeModules = False,
         workspaceRootsOnly = False, cacheResults = True\<rparr>) = [False]"
  by (simp add: run_eval fs_ws_false_def)

lemma workspace_listing_repo:
  "(case getWorkspacePackageJsonFiles fs_repo (newService [[''repo''], [''repo'']]) of
      (listing, s') \<Rightarrow> map (\<lambda>r. path (objects s' ! r)) listing)
   = [[''repo'', ''package.json'']]"
  by (simp add: getWorkspacePackageJsonFiles_def uniqueResults_def service_eval run_eval
      fs_repo_def)

lemma discover_repo:
  "map (\<lambda>e. (path e, directory e, score e))
     (contents (snd (discoverPackageJsonFiles fs_repo [''repo''] no_options (newService [])))
        (fst (discoverPackageJsonFiles fs_repo [''repo''] no_options (newService []))))
   = [([''repo'', ''package.json''], [''repo''], 160)]"
  by (simp add: service_eval run_repo)

lemma run_broken_removed:
  "map path (discoverRun [] (fs_broken([''repo'', ''package.json''] := None)) [''repo'']
     \<lparr>maxDepthUp = 10, maxDepthDown = 5, includeNodeModules = False,
      workspaceRootsOnly = False, cacheResults = True\<rparr>) = [[''package.json'']]"
  by (simp add: run_eval fs_broken_def)

lemma run_app:
  "discoverRun [[''repo'']] fs_app [''repo'', ''app'']
     \<lparr>maxDepthUp = 10, maxDepthDown = 5, includeNodeModules = False,
      workspaceRootsOnly = False, cacheResults = True\<rparr> =
     [\<lparr>path = [''repo'', ''app'', ''package.json''], directory = [''repo'', ''app''],
       name = None, version = None, scripts = JObj [(''build'', JStr ''tsc'')],
       isWorkspaceRoot = False, isMonorepoRoot = False, workspaces = None,
       distance = 0, score = 160\<rparr>,
      \<lparr>path = [''repo'', ''package.json''], directory = [''repo''], name = None, version = None,
       scripts = JObj [], isWorkspaceRoot = True, isMonorepoRoot = False, workspaces = None,
       distance = 1, score = 140\<rparr>]"
  by (simp add: run_eval fs_app_def)

text \<open>
  With \<^verbatim>\<open>cacheResults\<close> enabled, a call leaves its array in the cache, and a call
  that finds an array in the cache returns that array and leaves the service as it is.
  It returns the array, not a copy: what it holds is read from the objects as they are
  by then.
\<close>

lemma call_fills_cache:
  assumes "cacheResults (spread DEFAULT_OPTIONS options)"
    and "discoverPackageJsonFiles fs sp options s = (results, s1)"
  shows "cache s1 (sp, spread DEFAULT_OPTIONS options) = Some results"
  using assms
  by (auto simp: discoverPackageJsonFiles_def newArray_def Let_def split: if_splits)

lemma cache_hit_returns_cached_array:
  assumes "cacheResults (spread DEFAULT_OPTIONS options)"
    and "cache s (sp, spread DEFAULT_OPTIONS options) = Some results"
  shows "discoverPackageJsonFiles fs sp options s = (results, s)"
  using assms by (simp add: discoverPackageJsonFiles_def Let_def)

section \<open>The claims\<close>

text \<open>
  C1. In the scenario of the specification (\<^verbatim>\<open>/repo/package.json\<close> with the scripts
  build and test, \<^verbatim>\<open>/repo/pkgs/a/package.json\<close> without scripts, start path \<^verbatim>\<open>/repo\<close>,
  \<^verbatim>\<open>maxDepthDown = 5\<close>) the claim expects both manifests, scored 160 and 80. The
  service returns the manifest of \<^verbatim>\<open>/repo\<close> alone, with score 160: the upward pass
  has put \<^verbatim>\<open>/repo\<close> into the visited set before the downward pass starts there.
  When the upward pass does not run (\<^verbatim>\<open>maxDepthUp = -1\<close>), the same call returns
  both manifests with the scores the claim expects.
\<close>

theorem C1_repo_scenario_finds_one_manifest:
  "(case discoverPackageJsonFiles fs_repo [''repo''] (no_options\<lparr>optMaxDepthDown := Some 5\<rparr>)
           (newService []) of
      (results, s) \<Rightarrow> map (\<lambda>e. (path e, distance e, score e)) (contents s results))
   = [([''repo'', ''package.json''], 0, 160)] \<and>
   (case discoverPackageJsonFiles fs_repo [''repo'']
           (no_options\<lparr>optMaxDepthUp := Some (- 1), optMaxDepthDown := Some 5\<rparr>)
           (newService []) of
      (results, s) \<Rightarrow> map (\<lambda>e. (path e, distance e, score e)) (contents s results))
   = [([''repo'', ''package.json''], 0, 160), ([''repo'', ''pkgs'', ''a'', ''package.json''], 2, 80)]"
  by (simp add: service_eval run_repo run_repo_down)

text \<open>
  C2. The claim says that no later call changes an entry that an earlier call has
  returned. With \<^verbatim>\<open>/repo\<close> a workspace root, the entry that
  \<^verbatim>\<open>discoverPackageJsonFiles\<close> returned with score 210 has score 310 after a call of
  \<^verbatim>\<open>analyzeProjectContext\<close> for the same path: the analysis gets the cached array and
  adds its bonus to the objects in it.
\<close>

theorem C2_analysis_changes_returned_entry:
  "(case discoverPackageJsonFiles fs_repo [''repo''] no_options (newService [[''repo'']]) of
      (results, s1) \<Rightarrow>
        (case analyzeProjectContext fs_repo [''repo''] no_smart_options s1 of
           (context, s2) \<Rightarrow> (map score (contents s1 results), map score (contents s2 results))))
   = ([210], [310])"
  by (simp add: service_eval analyse_eval run_repo)

text \<open>
  C3. When \<^verbatim>\<open>maxDepthUp\<close> is not negative, the downward pass of a run returns the
  state of the upward pass unchanged, and the directory of every entry of the run is
  the start path or one of its ancestors. The same holds of every entry of the array
  that \<^verbatim>\<open>discoverPackageJsonFiles\<close> returns in a reachable state of the service, be it
  new or from the cache.
\<close>

theorem C3_results_are_ancestors:
  assumes "0 \<le> maxDepthUp opts"
  shows "searchDownward roots fs opts sp (maxDepthDown opts) 0
           (searchUpward roots fs sp (maxDepthUp opts) 0 ([], {}))
         = searchUpward roots fs sp (maxDepthUp opts) 0 ([], {}) \<and>
         (\<forall>e \<in> set (discoverRun roots fs sp opts). \<exists>k. directory e = (path_dirname ^^ k) sp) \<and>
         (reachable s \<and> spread DEFAULT_OPTIONS options = opts \<longrightarrow>
            (\<forall>e \<in> set (contents (snd (discoverPackageJsonFiles fs sp options s))
                          (fst (discoverPackageJsonFiles fs sp options s))).
               \<exists>k. directory e = (path_dirname ^^ k) sp))"
proof -
  have s: "searched roots fs sp opts = searchUpward roots fs sp (maxDepthUp opts) 0 ([], {})"
    using assms by (rule searched_upward)
  have run: "\<exists>k. directory e = (path_dirname ^^ k) sp"
    if "e \<in> set (discoverRun roots fs sp opts)" for e
    using run_upward_entry [OF assms that] by (auto simp: upR_def dirname_pow)
  have call: "\<exists>k. directory e = (path_dirname ^^ k) sp"
    if r: "reachable s" and o: "spread DEFAULT_OPTIONS options = opts"
      and e: "e \<in> set (contents (snd (discoverPackageJsonFiles fs sp options s))
                         (fst (discoverPackageJsonFiles fs sp options s)))" for e
  proof -
    from discover_reachable [OF r, of sp options fs] e assms
    have "upR sp (directory e) (distance e)" by (simp add: result_ok_def o)
    then show ?thesis by (auto simp: upR_def dirname_pow)
  qed
  from s run call show ?thesis by (simp add: searched_def)
qed

theorem C3_results_are_ancestors_witness:
  "0 \<le> maxDepthUp DEFAULT_OPTIONS \<and>
   reachable (newService []) \<and> spread DEFAULT_OPTIONS no_options = DEFAULT_OPTIONS \<and>
   searchDownward [] fs_repo DEFAULT_OPTIONS [''repo''] (maxDepthDown DEFAULT_OPTIONS) 0
     (searchUpward [] fs_repo [''repo''] (maxDepthUp DEFAULT_OPTIONS) 0 ([], {}))
   = searchUpward [] fs_repo [''repo''] (maxDepthUp DEFAULT_OPTIONS) 0 ([], {}) \<and>
   map (\<lambda>e. (path e, directory e, score e))
     (contents (snd (discoverPackageJsonFiles fs_repo [''repo''] no_options (newService [])))
        (fst (discoverPackageJsonFiles fs_repo [''repo''] no_options (newService []))))
   = [([''repo'', ''package.json''], [''repo''], 160)]"
proof -
  have h: "0 \<le> maxDepthUp DEFAULT_OPTIONS" by (simp add: DEFAULT_OPTIONS_def)
  have o: "spread DEFAULT_OPTIONS no_options = DEFAULT_OPTIONS"
    by (simp add: spread_def no_options_def DEFAULT_OPTIONS_def)
  from C3_results_are_ancestors [OF h, where roots = "[]" and fs = fs_repo and sp = "[''repo'']"]
  have "searchDownward [] fs_repo DEFAULT_OPTIONS [''repo''] (maxDepthDown DEFAULT_OPTIONS) 0
     (searchUpward [] fs_repo [''repo''] (maxDepthUp DEFAULT_OPTIONS) 0 ([], {}))
   = searchUpward [] fs_repo [''repo''] (maxDepthUp DEFAULT_OPTIONS) 0 ([], {})"
    by blast
  with h o reachable.created [of "[]"] discover_repo show ?thesis by simp
qed

text \<open>
  C4 as the specification states it: every entry of a run has the score of the
  formula whose bonus of 15 is for scripts that contain one of the names start, dev,
  build, test, lint. For a manifest whose only script is build with the empty command
  the run gives 145 = 100 + 20 + 25, the formula 160.
\<close>

theorem C4_common_script_counterexample:
  "map score
     (discoverRun [] fs_blank_build [''repo'']
        \<lparr>maxDepthUp = 10, maxDepthDown = 5, includeNodeModules = False,
         workspaceRootsOnly = False, cacheResults = True\<rparr>) = [145] \<and>
   map (spec_score
          (discoverRun [] fs_blank_build [''repo'']
             \<lparr>maxDepthUp = 10, maxDepthDown = 5, includeNodeModules = False,
              workspaceRootsOnly = False, cacheResults = True\<rparr>) [''repo''])
     (discoverRun [] fs_blank_build [''repo'']
        \<lparr>maxDepthUp = 10, maxDepthDown = 5, includeNodeModules = False,
         workspaceRootsOnly = False, cacheResults = True\<rparr>) = [160]"
  by (simp add: run_blank_build spec_score_def hasKey_def commonScripts_def)

text \<open>
  C4, amended. Every entry of a run has the score max(0, 100 - 10 * distance), plus
  50 for a workspace root, plus 30 for a monorepo root, plus 20 for non-empty scripts,
  plus 15 if the scripts map one of start, dev, build, test, lint to a truthy value
  (a non-empty command), plus 25 if its directory is the start path, plus 40 if no
  entry of the result set lies at the start path and its distance is 1. After
  \<^verbatim>\<open>getBestPackageJson\<close>, every entry of the array has this score with respect to the
  whole array: whenever the discovery was not answered from the cache, and, in every
  reachable state, whenever the entries of the supplementary probe have been merged
  in (no entry at the start path and \<^verbatim>\<open>maxDepthDown\<close> positive).
\<close>

theorem C4_scores_follow_formula:
  "(\<forall>e \<in> set (discoverRun roots fs sp opts).
      score e = truthy_score (discoverRun roots fs sp opts) sp e) \<and>
   ((cacheResults (spread DEFAULT_OPTIONS options) \<longrightarrow>
       cache s (sp, spread DEFAULT_OPTIONS options) = None) \<or>
    (reachable s \<and>
     \<not> list_ex (\<lambda>info. directory info = sp)
         (contents (snd (discoverPackageJsonFiles fs sp
                           (asOptions (spread DEFAULT_OPTIONS options)) s))
            (fst (discoverPackageJsonFiles fs sp
                    (asOptions (spread DEFAULT_OPTIONS options)) s))) \<and>
     maxDepthDown (spread DEFAULT_OPTIONS options) > 0)
    \<longrightarrow>
    (\<forall>e \<in> set (contents (snd (getBestPackageJson fs sp options s))
                  (fst (discoverPackageJsonFiles fs sp
                          (asOptions (spread DEFAULT_OPTIONS options)) s))).
       score e =
         truthy_score
           (contents (snd (getBestPackageJson fs sp options s))
              (fst (discoverPackageJsonFiles fs sp
                      (asOptions (spread DEFAULT_OPTIONS options)) s))) sp e))"
proof -
  let ?d = "discoverPackageJsonFiles fs sp (asOptions (spread DEFAULT_OPTIONS options)) s"
  have d: "?d = (fst ?d, snd ?d)" by simp
  have g: "getBestPackageJson fs sp options s =
      (fst (getBestPackageJson fs sp options s), snd (getBestPackageJson fs sp options s))"
    by simp
  have a: "\<forall>e \<in> set (contents (snd (getBestPackageJson fs sp options s)) (fst ?d)).
       score e = truthy_score (contents (snd (getBestPackageJson fs sp options s)) (fst ?d)) sp e"
    if "cacheResults (spread DEFAULT_OPTIONS options) \<longrightarrow>
          cache s (sp, spread DEFAULT_OPTIONS options) = None"
    by (rule getBest_rescored [OF that d g])
  have b: "\<forall>e \<in> set (contents (snd (getBestPackageJson fs sp options s)) (fst ?d)).
       score e = truthy_score (contents (snd (getBestPackageJson fs sp options s)) (fst ?d)) sp e"
    if "reachable s" and "\<not> list_ex (\<lambda>info. directory info = sp) (contents (snd ?d) (fst ?d)) \<and>
        maxDepthDown (spread DEFAULT_OPTIONS options) > 0"
    by (rule getBest_merged_rescored [OF reachable_ok [OF that(1)] d that(2)])
  from discoverRun_formula [of roots fs sp opts] a b show ?thesis by blast
qed

theorem C4_scores_follow_formula_witness:
  "cache (newService []) ([''a'', ''b'', ''c''], spread DEFAULT_OPTIONS no_options) = None \<and>
   reachable (newService []) \<and>
   \<not> list_ex (\<lambda>info. directory info = [''a'', ''b'', ''c''])
       (contents (snd (discoverPackageJsonFiles fs_near [''a'', ''b'', ''c'']
                         (asOptions (spread DEFAULT_OPTIONS no_options)) (newService [])))
          (fst (discoverPackageJsonFiles fs_near [''a'', ''b'', ''c'']
                  (asOptions (spread DEFAULT_OPTIONS no_options)) (newService [])))) \<and>
   maxDepthDown (spread DEFAULT_OPTIONS no_options) > 0 \<and>
   list_all (\<lambda>e. score e =
       truthy_score
         (contents (snd (getBestPackageJson fs_near [''a'', ''b'', ''c''] no_options (newService [])))
            (fst (discoverPackageJsonFiles fs_near [''a'', ''b'', ''c'']
                    (asOptions (spread DEFAULT_OPTIONS no_options)) (newService []))))
         [''a'', ''b'', ''c''] e)
     (contents (snd (getBestPackageJson fs_near [''a'', ''b'', ''c''] no_options (newService [])))
        (fst (discoverPackageJsonFiles fs_near [''a'', ''b'', ''c'']
                (asOptions (spread DEFAULT_OPTIONS no_options)) (newService [])))) \<and>
   (case getBestPackageJson fs_near [''a'', ''b'', ''c''] no_options (newService []) of
      (best, s') \<Rightarrow> (best, map score (contents s' 0))) = (Some 0, [100, 80])"
proof -
  have m: "cache (newService []) ([''a'', ''b'', ''c''], spread DEFAULT_OPTIONS no_options) = None"
    by (simp add: newService_def)
  have n: "\<not> list_ex (\<lambda>info. directory info = [''a'', ''b'', ''c''])
       (contents (snd (discoverPackageJsonFiles fs_near [''a'', ''b'', ''c'']
                         (asOptions (spread DEFAULT_OPTIONS no_options)) (newService [])))
          (fst (discoverPackageJsonFiles fs_near [''a'', ''b'', ''c'']
                  (asOptions (spread DEFAULT_OPTIONS no_options)) (newService []))))"
    by (simp add: asOptions_def service_eval run_near)
  have d: "maxDepthDown (spread DEFAULT_OPTIONS no_options) > 0"
    by (simp add: spread_def DEFAULT_OPTIONS_def no_options_def)
  from C4_scores_follow_formula
    [where roots = "[]" and fs = fs_near and sp = "[''a'', ''b'', ''c'']" and opts = DEFAULT_OPTIONS
       and options = no_options and s = "newService []"] m
  have "list_all (\<lambda>e. score e =
       truthy_score
         (contents (snd (getBestPackageJson fs_near [''a'', ''b'', ''c''] no_options (newService [])))
            (fst (discoverPackageJsonFiles fs_near [''a'', ''b'', ''c'']
                    (asOptions (spread DEFAULT_OPTIONS no_options)) (newService []))))
         [''a'', ''b'', ''c''] e)
     (contents (snd (getBestPackageJson fs_near [''a'', ''b'', ''c''] no_options (newService [])))
        (fst (discoverPackageJsonFiles fs_near [''a'', ''b'', ''c'']
                (asOptions (spread DEFAULT_OPTIONS no_options)) (newService []))))"
    unfolding list_all_iff by blast
  with m n d reachable.created [of "[]"] getBest_near show ?thesis by simp
qed

text \<open>
  C5. \<^verbatim>\<open>shouldUseSpecificPackageJson\<close> returns the first relevant manifest when there
  is exactly one, or when there are several and the score of the first exceeds 1.5
  times the score of the second; otherwise it returns absent. The relevant manifests
  are in descending order of score, so the first is the top-scored one and the second
  the second-best. With two relevant manifests scored 100 and 50 the decision is the
  first, with 100 and 80 it is absent.
\<close>

theorem C5_specific_manifest_decision:
  "(analyzeProjectContext fs cp no_smart_options s = (ctx, s1) \<longrightarrow>
      sorted (map (\<lambda>r. - score (objects s1 ! r)) (relevantPackageJsons ctx)) \<and>
      shouldUseSpecificPackageJson fs cp s =
        (if length (relevantPackageJsons ctx) = 1 \<or>
            (length (relevantPackageJsons ctx) > 1 \<and>
             real_of_int (score (objects s1 ! (relevantPackageJsons ctx ! 0)))
               > real_of_int (score (objects s1 ! (relevantPackageJsons ctx ! 1))) * 1.5)
         then Some (relevantPackageJsons ctx ! 0) else None, s1)) \<and>
   (score (objects s2 ! r0) = 100 \<and> score (objects s2 ! r1) = 50 \<longrightarrow>
      chooseSpecific s2 [r0, r1] = Some r0) \<and>
   (score (objects s2 ! r0) = 100 \<and> score (objects s2 ! r1) = 80 \<longrightarrow>
      chooseSpecific s2 [r0, r1] = None)"
  using relevant_sorted [of fs cp no_smart_options s ctx s1]
  by (auto simp: shouldUseSpecificPackageJson_def chooseSpecific_def)

theorem C5_specific_manifest_decision_witness:
  "(case shouldUseSpecificPackageJson fs_far [''a'', ''b'', ''c'', ''d'', ''e'', ''f'', ''g'']
          (newService []) of
      (chosen, s') \<Rightarrow> (map_option (\<lambda>r. path (objects s' ! r)) chosen, map score (objects s')))
   = (Some [''a'', ''b'', ''c'', ''d'', ''package.json''], [100, 50]) \<and>
   (case shouldUseSpecificPackageJson fs_near [''a'', ''b'', ''c''] (newService []) of
      (chosen, s') \<Rightarrow> (map_option (\<lambda>r. path (objects s' ! r)) chosen, map score (objects s')))
   = (None, [100, 80]) \<and>
   shouldUseSpecificPackageJson fs_near [''a'', ''b'', ''c''] (newService []) =
     (None, snd (analyzeProjectContext fs_near [''a'', ''b'', ''c''] no_smart_options (newService []))) \<and>
   chooseSpecific
     (snd (shouldUseSpecificPackageJson fs_far [''a'', ''b'', ''c'', ''d'', ''e'', ''f'', ''g'']
             (newService []))) [0, 1] = Some 0 \<and>
   chooseSpecific
     (snd (shouldUseSpecificPackageJson fs_near [''a'', ''b'', ''c''] (newService []))) [0, 1] = None"
proof -
  obtain ctx s1 where
    a: "analyzeProjectContext fs_near [''a'', ''b'', ''c''] no_smart_options (newService []) = (ctx, s1)"
    by (cases "analyzeProjectContext fs_near [''a'', ''b'', ''c''] no_smart_options (newService [])")
  from shouldUse_near have n: "fst (shouldUseSpecificPackageJson fs_near [''a'', ''b'', ''c''] (newService [])) = None"
    by (simp split: prod.splits)
  let ?far = "snd (shouldUseSpecificPackageJson fs_far [''a'', ''b'', ''c'', ''d'', ''e'', ''f'', ''g'']
                     (newService []))"
  let ?near = "snd (shouldUseSpecificPackageJson fs_near [''a'', ''b'', ''c''] (newService []))"
  from shouldUse_far have f: "map score (objects ?far) = [100, 50]" by (simp split: prod.splits)
  from shouldUse_near have g: "map score (objects ?near) = [100, 80]" by (simp split: prod.splits)
  from f have f2: "score (objects ?far ! 0) = 100 \<and> score (objects ?far ! 1) = 50"
    by (cases "objects ?far") (auto simp: Cons_eq_map_conv)
  from g have g2: "score (objects ?near ! 0) = 100 \<and> score (objects ?near ! 1) = 80"
    by (cases "objects ?near") (auto simp: Cons_eq_map_conv)
  note t = C5_specific_manifest_decision
    [where fs = fs_near and cp = "[''a'', ''b'', ''c'']" and s = "newService []" and ctx = ctx
       and ?s1.0 = s1]
  from t [where ?s2.0 = ?near and ?r0.0 = 0 and ?r1.0 = 1] a n g2
  have 1: "shouldUseSpecificPackageJson fs_near [''a'', ''b'', ''c''] (newService []) = (None, s1)"
    and 2: "chooseSpecific ?near [0, 1] = None"
    by (simp_all split: if_splits)
  from t [where ?s2.0 = ?far and ?r0.0 = 0 and ?r1.0 = 1] f2
  have 3: "chooseSpecific ?far [0, 1] = Some 0" by simp
  from a 1 2 3 shouldUse_far shouldUse_near show ?thesis by simp
qed

text \<open>
  C6. The project type is monorepo if some relevant manifest is a monorepo root;
  otherwise workspace if there is more than one relevant manifest and one of them is
  a workspace root; otherwise nested if there is more than one; otherwise
  single-package. The analysis classifies its relevant manifests in this way.
\<close>

theorem C6_classification:
  "(detectProjectType pkgs wr = Monorepo \<longleftrightarrow> (\<exists>p \<in> set pkgs. isMonorepoRoot p)) \<and>
   (detectProjectType pkgs wr = Workspace \<longleftrightarrow>
      \<not> (\<exists>p \<in> set pkgs. isMonorepoRoot p) \<and> length pkgs > 1 \<and>
      (\<exists>p \<in> set pkgs. isWorkspaceRoot p)) \<and>
   (detectProjectType pkgs wr = Nested \<longleftrightarrow>
      \<not> (\<exists>p \<in> set pkgs. isMonorepoRoot p) \<and> length pkgs > 1 \<and>
      \<not> (\<exists>p \<in> set pkgs. isWorkspaceRoot p)) \<and>
   (detectProjectType pkgs wr = SinglePackage \<longleftrightarrow>
      \<not> (\<exists>p \<in> set pkgs. isMonorepoRoot p) \<and> length pkgs \<le> 1) \<and>
   projectType (fst (analyzeProjectContext fs cp options s)) =
     detectProjectType
       (map (\<lambda>r. objects (snd (analyzeProjectContext fs cp options s)) ! r)
          (relevantPackageJsons (fst (analyzeProjectContext fs cp options s)))) wr"
  by (auto simp: detectProjectType_def list_ex_iff analyzeProjectContext_def Let_def
      split: prod.splits)

theorem C6_classification_witness:
  "detectProjectType
     (discoverRun [] fs_near [''a'', ''b'', ''c'']
        \<lparr>maxDepthUp = 10, maxDepthDown = 5, includeNodeModules = False,
         workspaceRootsOnly = False, cacheResults = True\<rparr>) [] = Monorepo"
  using C6_classification
    [of "discoverRun [] fs_near [''a'', ''b'', ''c'']
           \<lparr>maxDepthUp = 10, maxDepthDown = 5, includeNodeModules = False,
            workspaceRootsOnly = False, cacheResults = True\<rparr>" "[]"]
  by (simp add: run_near)

text \<open>
  C7. Two calls with the same start path and options, with \<^verbatim>\<open>cacheResults\<close>
  enabled, no change of the file system and no invalidation of the cache between them,
  do not always return the same scores. The second call is a cache hit and returns the
  very array of the first, but \<^verbatim>\<open>analyzeProjectContext\<close>, run between the two, has
  added 100 to the score of every workspace root held by that array. With the workspace
  root \<^verbatim>\<open>/repo\<close>, the first call from \<^verbatim>\<open>/repo\<close> returns the score 210 and the
  second 310; from \<^verbatim>\<open>/repo/app\<close> the first call returns the scores 160 and 140, the
  second 160 and 240, which is not even in descending order. In both runs the cache
  entry is still the array of the first call when the second call is made.
\<close>

theorem C7_analysis_between_calls_changes_scores:
  "(case discoverPackageJsonFiles fs_repo [''repo''] no_options (newService [[''repo'']]) of
      (r1, s1) \<Rightarrow>
        (case analyzeProjectContext fs_repo [''repo''] no_smart_options s1 of
           (ctx, s2) \<Rightarrow>
             (case discoverPackageJsonFiles fs_repo [''repo''] no_options s2 of
                (r2, s3) \<Rightarrow>
                  (r2 = r1,
                   cache s2 ([''repo''], spread DEFAULT_OPTIONS no_options) = Some r1,
                   map score (contents s1 r1), map score (contents s3 r2)))))
   = (True, True, [210], [310]) \<and>
   (case discoverPackageJsonFiles fs_app [''repo'', ''app''] no_options (newService [[''repo'']]) of
      (r1, s1) \<Rightarrow>
        (case analyzeProjectContext fs_app [''repo'', ''app''] no_smart_options s1 of
           (ctx, s2) \<Rightarrow>
             (case discoverPackageJsonFiles fs_app [''repo'', ''app''] no_options s2 of
                (r2, s3) \<Rightarrow>
                  (r2 = r1,
                   cache s2 ([''repo'', ''app''], spread DEFAULT_OPTIONS no_options) = Some r1,
                   map score (contents s1 r1), map score (contents s3 r2)))))
   = (True, True, [160, 140], [160, 240])"
  by (rule conjI) (simp_all add: service_eval analyse_eval run_repo run_app)

text \<open>
  C8. The entries of a run, found by the upward and the downward pass together, have
  pairwise different paths; so have the entries of the array that
  \<^verbatim>\<open>discoverPackageJsonFiles\<close> returns in a reachable state of the service, and the
  entries that \<^verbatim>\<open>getWorkspacePackageJsonFiles\<close> returns for the workspace roots
  together.
\<close>

theorem C8_no_duplicate_paths:
  "distinct (map path (discoverRun roots fs sp opts)) \<and>
   (reachable s \<longrightarrow>
      distinct (map path (contents (snd (discoverPackageJsonFiles fs sp options s))
                            (fst (discoverPackageJsonFiles fs sp options s))))) \<and>
   distinct (map (\<lambda>r. path (objects (snd (getWorkspacePackageJsonFiles fs s)) ! r))
              (fst (getWorkspacePackageJsonFiles fs s)))"
proof -
  have "distinct (map path (contents (snd (discoverPackageJsonFiles fs sp options s))
                            (fst (discoverPackageJsonFiles fs sp options s))))"
    if "reachable s"
    using discover_reachable [OF that, of sp options fs] by (simp add: result_ok_def)
  moreover have "distinct (map (\<lambda>r. path (objects (snd (getWorkspacePackageJsonFiles fs s)) ! r))
              (fst (getWorkspacePackageJsonFiles fs s)))"
    by (simp add: getWorkspacePackageJsonFiles_def Let_def distinct_map_sort_key
        uniqueResults_distinct split: prod.splits)
  ultimately show ?thesis using discoverRun_distinct [of roots fs sp opts] by blast
qed

theorem C8_no_duplicate_paths_witness:
  "reachable (newService [[''repo''], [''repo'']]) \<and>
   distinct (map path
     (contents (snd (discoverPackageJsonFiles fs_repo [''repo''] no_options
                       (newService [[''repo''], [''repo'']])))
        (fst (discoverPackageJsonFiles fs_repo [''repo''] no_options
                (newService [[''repo''], [''repo'']]))))) \<and>
   (case getWorkspacePackageJsonFiles fs_repo (newService [[''repo''], [''repo'']]) of
      (listing, s') \<Rightarrow> map (\<lambda>r. path (objects s' ! r)) listing)
   = [[''repo'', ''package.json'']]"
  using C8_no_duplicate_paths
      [where roots = "[]" and fs = fs_repo and sp = "[''repo'']" and opts = DEFAULT_OPTIONS
         and options = no_options and s = "newService [[''repo''], [''repo'']]"]
    reachable.created [of "[[''repo''], [''repo'']]"] workspace_listing_repo
  by simp

text \<open>
  C9 as the specification states it: the flag \<^verbatim>\<open>isMonorepoRoot\<close> is true exactly when
  the manifest declares a \<^verbatim>\<open>workspaces\<close> field, an array or an object with a
  \<^verbatim>\<open>packages\<close> array. A manifest whose \<^verbatim>\<open>workspaces\<close> is an object without
  \<^verbatim>\<open>packages\<close> gets the flag; a manifest whose \<^verbatim>\<open>workspaces\<close> is \<^verbatim>\<open>false\<close> has the
  field and does not get the flag.
\<close>

theorem C9_workspaces_counterexample:
  "map isMonorepoRoot
     (discoverRun [] fs_nohoist [''repo'']
        \<lparr>maxDepthUp = 10, maxDepthDown = 5, includeNodeModules = False,
         workspaceRootsOnly = False, cacheResults = True\<rparr>) = [True] \<and>
   readJson fs_nohoist [''repo'', ''package.json''] =
     Inr (JObj [(''workspaces'', JObj [(''nohoist'', JArr [JStr ''**/react-native''])])]) \<and>
   \<not> declaresWorkspaces
       (JObj [(''workspaces'', JObj [(''nohoist'', JArr [JStr ''**/react-native''])])]) \<and>
   map isMonorepoRoot
     (discoverRun [] fs_ws_false [''repo'']
        \<lparr>maxDepthUp = 10, maxDepthDown = 5, includeNodeModules = False,
         workspaceRootsOnly = False, cacheResults = True\<rparr>) = [False] \<and>
   readJson fs_ws_false [''repo'', ''package.json''] =
     Inr (JObj [(''workspaces'', JBool False)]) \<and>
   hasKey (JObj [(''workspaces'', JBool False)]) ''workspaces''"
proof -
  have "readJson fs_nohoist [''repo'', ''package.json''] =
      Inr (JObj [(''workspaces'', JObj [(''nohoist'', JArr [JStr ''**/react-native''])])])"
    by (simp add: readJson_def fs_nohoist_def)
  moreover have "readJson fs_ws_false [''repo'', ''package.json''] =
      Inr (JObj [(''workspaces'', JBool False)])"
    by (simp add: readJson_def fs_ws_false_def)
  moreover have "\<not> declaresWorkspaces
      (JObj [(''workspaces'', JObj [(''nohoist'', JArr [JStr ''**/react-native''])])])"
    by (simp add: declaresWorkspaces_def)
  moreover have "hasKey (JObj [(''workspaces'', JBool False)]) ''workspaces''"
    by (simp add: hasKey_def)
  ultimately show ?thesis using run_nohoist run_ws_false by simp
qed

text \<open>
  C9, amended. Every entry of a run has a score of at least 0, and its flag
  \<^verbatim>\<open>isMonorepoRoot\<close> is true exactly when the \<^verbatim>\<open>workspaces\<close> member of the parsed
  manifest is present with a truthy value. So the flag implies that the field is
  present, and a manifest whose \<^verbatim>\<open>workspaces\<close> is an array, or an object with a
  \<^verbatim>\<open>packages\<close> array, has the flag. The score of every entry of the array that
  \<^verbatim>\<open>discoverPackageJsonFiles\<close> returns in a reachable state of the service is at
  least 0 as well.
\<close>

theorem C9_score_and_monorepo_flag:
  "(\<forall>e \<in> set (discoverRun roots fs sp opts).
      0 \<le> score e \<and>
      (\<exists>j. readJson fs (path e) = Inr j \<and>
           (isMonorepoRoot e \<longleftrightarrow> (\<exists>w. getProp j ''workspaces'' = Inr (Some w) \<and> truthy w)) \<and>
           (isMonorepoRoot e \<longrightarrow> hasKey j ''workspaces'') \<and>
           (declaresWorkspaces j \<longrightarrow> isMonorepoRoot e))) \<and>
   (reachable s \<longrightarrow>
      (\<forall>e \<in> set (contents (snd (discoverPackageJsonFiles fs sp options s))
                    (fst (discoverPackageJsonFiles fs sp options s))). 0 \<le> score e))"
proof -
  have call: "0 \<le> score e"
    if "reachable s"
      and "e \<in> set (contents (snd (discoverPackageJsonFiles fs sp options s))
                    (fst (discoverPackageJsonFiles fs sp options s)))" for e
    using discover_reachable [OF that(1), of sp options fs] that(2) by (simp add: result_ok_def)
  have run: "0 \<le> score e \<and>
      (\<exists>j. readJson fs (path e) = Inr j \<and>
           (isMonorepoRoot e \<longleftrightarrow> (\<exists>w. getProp j ''workspaces'' = Inr (Some w) \<and> truthy w)) \<and>
           (isMonorepoRoot e \<longrightarrow> hasKey j ''workspaces'') \<and>
           (declaresWorkspaces j \<longrightarrow> isMonorepoRoot e))"
    if "e \<in> set (discoverRun roots fs sp opts)" for e
  proof -
    from that obtain e0 h where e0: "e0 \<in> set (fst (searched roots fs sp opts))"
      and e: "e = e0\<lparr>score := scoreOf h sp e0\<rparr>"
      by (auto simp: set_discoverRun)
    note p = searched_entry(1) [OF e0]
    from parse_Some(8) [OF p] obtain j where j: "readJson fs (path e0) = Inr j"
      and w: "getProp j ''workspaces'' = Inr (workspaces e0)" by blast
    have m: "isMonorepoRoot e0 = truthy_opt (workspaces e0)" by (rule parse_Some(6) [OF p])
    have iff: "isMonorepoRoot e0 \<longleftrightarrow> (\<exists>w. getProp j ''workspaces'' = Inr (Some w) \<and> truthy w)"
      by (cases "workspaces e0") (simp_all add: m w truthy_opt_def)
    have k: "isMonorepoRoot e0 \<longrightarrow> hasKey j ''workspaces''"
      using iff hasKey_getProp by blast
    have d: "declaresWorkspaces j \<longrightarrow> isMonorepoRoot e0"
      using iff declares_truthy by blast
    show ?thesis using j iff k d by (auto simp: e scoreOf_nonneg)
  qed
  from run call show ?thesis by blast
qed

theorem C9_score_and_monorepo_flag_witness:
  "reachable (newService []) \<and>
   list_all (\<lambda>e. 0 \<le> score e)
     (discoverRun [] fs_near [''a'', ''b'', ''c'']
        \<lparr>maxDepthUp = 10, maxDepthDown = 5, includeNodeModules = False,
         workspaceRootsOnly = False, cacheResults = True\<rparr>) \<and>
   list_all (\<lambda>e. 0 \<le> score e)
     (contents (snd (discoverPackageJsonFiles fs_near [''a'', ''b'', ''c''] no_options (newService [])))
        (fst (discoverPackageJsonFiles fs_near [''a'', ''b'', ''c''] no_options (newService [])))) \<and>
   map isMonorepoRoot
     (discoverRun [] fs_near [''a'', ''b'', ''c'']
        \<lparr>maxDepthUp = 10, maxDepthDown = 5, includeNodeModules = False,
         workspaceRootsOnly = False, cacheResults = True\<rparr>) = [True, False]"
proof -
  note t = C9_score_and_monorepo_flag [where roots = "[]" and fs = fs_near
      and sp = "[''a'', ''b'', ''c'']"
      and opts = "\<lparr>maxDepthUp = 10, maxDepthDown = 5, includeNodeModules = False,
        workspaceRootsOnly = False, cacheResults = True\<rparr>"
      and s = "newService []" and options = no_options]
  from t have "list_all (\<lambda>e. 0 \<le> score e)
     (discoverRun [] fs_near [''a'', ''b'', ''c'']
        \<lparr>maxDepthUp = 10, maxDepthDown = 5, includeNodeModules = False,
         workspaceRootsOnly = False, cacheResults = True\<rparr>)"
    unfolding list_all_iff by blast
  moreover from t reachable.created [of "[]"] have "list_all (\<lambda>e. 0 \<le> score e)
     (contents (snd (discoverPackageJsonFiles fs_near [''a'', ''b'', ''c''] no_options (newService [])))
        (fst (discoverPackageJsonFiles fs_near [''a'', ''b'', ''c''] no_options (newService []))))"
    unfolding list_all_iff by blast
  ultimately show ?thesis using reachable.created [of "[]"] by (simp add: run_near)
qed

text \<open>
  C10. When the file is missing, cannot be read, is not JSON, holds \<^verbatim>\<open>null\<close> or is a
  directory, the body of \<^verbatim>\<open>parsePackageJson\<close> throws and \<^verbatim>\<open>parsePackageJson\<close> returns
  absent, whatever the distance; no run has an entry for that file; and when it is a
  file, the run finds exactly what it finds on the file system without that file.
\<close>

theorem C10_parse_failures_are_swallowed:
  assumes "fs p = None \<or> fs p = Some (File Unreadable) \<or> fs p = Some (File Malformed)
           \<or> fs p = Some (File (Manifest JNull)) \<or> (\<exists>d. fs p = Some (Dir d))"
  shows "isl (parseBody roots fs p dst) \<and> parsePackageJson roots fs p dst = None \<and>
         (\<forall>e \<in> set (discoverRun roots fs sp opts). path e \<noteq> p) \<and>
         ((\<forall>d. fs p \<noteq> Some (Dir d)) \<longrightarrow>
            discoverRun roots fs sp opts = discoverRun roots (fs(p := None)) sp opts)"
proof -
  have b: "isl (parseBody roots fs p d)" for d
    using assms by (auto simp: parseBody_def readJson_def)
  have n: "parsePackageJson roots fs p d = None" for d
    using b [of d] by (auto simp: parsePackageJson_def split: sum.splits)
  have "path e \<noteq> p" if "e \<in> set (discoverRun roots fs sp opts)" for e
  proof
    assume eq: "path e = p"
    from that obtain e0 where e0: "e0 \<in> set (fst (searched roots fs sp opts))" and "path e = path e0"
      by (auto simp: set_discoverRun)
    with searched_entry(1) [OF e0] eq n [of "distance e0"] show False by simp
  qed
  moreover have "discoverRun roots fs sp opts = discoverRun roots (fs(p := None)) sp opts"
    if nd: "\<forall>d. fs p \<noteq> Some (Dir d)"
  proof (cases "fs p = None")
    case True
    then have "fs(p := None) = fs" by (simp add: fun_upd_idem_iff)
    then show ?thesis by simp
  next
    case False
    with assms nd have "fs p = Some (File Unreadable) \<or> fs p = Some (File Malformed)
        \<or> fs p = Some (File (Manifest JNull))" by blast
    then show ?thesis by (rule run_without_bad_file)
  qed
  ultimately show ?thesis using b n by blast
qed

theorem C10_parse_failures_are_swallowed_witness:
  "fs_broken [''repo'', ''package.json''] = Some (File Malformed) \<and>
   parsePackageJson [] fs_broken [''repo'', ''package.json''] 0 = None \<and>
   map path (discoverRun [] fs_broken [''repo'']
     \<lparr>maxDepthUp = 10, maxDepthDown = 5, includeNodeModules = False,
      workspaceRootsOnly = False, cacheResults = True\<rparr>) = [[''package.json'']] \<and>
   map path (discoverRun [] (fs_broken([''repo'', ''package.json''] := None)) [''repo'']
     \<lparr>maxDepthUp = 10, maxDepthDown = 5, includeNodeModules = False,
      workspaceRootsOnly = False, cacheResults = True\<rparr>) = [[''package.json'']]"
proof -
  have h: "fs_broken [''repo'', ''package.json''] = Some (File Malformed)"
    by (simp add: fs_broken_def)
  have "parsePackageJson [] fs_broken [''repo'', ''package.json''] 0 = None"
    using C10_parse_failures_are_swallowed [of fs_broken "[''repo'', ''package.json'']" "[]" 0] h
    by simp
  with h run_broken run_broken_removed show ?thesis by simp
qed

end
